theory Spec2Isabelle
  imports Main
begin

section \<open>Characters and strings\<close>

text \<open>
  A Python \<open>str\<close> is modelled as a \<open>string\<close> whose characters are the code points
  0 to 255. The classes below are Python 3's classes on that range: \<open>\s\<close> and
  \<open>str.strip()\<close> use \<open>str.isspace\<close>, \<open>\w\<close> is \<open>str.isalnum\<close> or the underscore,
  \<open>str.isalpha\<close> is the letters; \<open>[a-zA-Z]\<close> and \<open>[0-9]\<close> are the ASCII ranges only.
\<close>

definition code :: "char \<Rightarrow> nat" where
  "code c = of_char c"

definition between :: "nat \<Rightarrow> char \<Rightarrow> nat \<Rightarrow> bool" where
  "between lo c hi = (lo \<le> code c \<and> code c \<le> hi)"

definition is_ascii_letter :: "char \<Rightarrow> bool" where
  "is_ascii_letter c = (between 97 c 122 \<or> between 65 c 90)"

definition is_ascii_digit :: "char \<Rightarrow> bool" where
  "is_ascii_digit c = between 48 c 57"

definition isalpha :: "char \<Rightarrow> bool" where
  "isalpha c = (is_ascii_letter c \<or> code c = 170 \<or> code c = 181 \<or> code c = 186
     \<or> between 192 c 214 \<or> between 216 c 246 \<or> between 248 c 255)"

definition is_word :: "char \<Rightarrow> bool" where
  "is_word c = (isalpha c \<or> is_ascii_digit c \<or> c = CHR ''_''
     \<or> between 178 c 179 \<or> code c = 185 \<or> between 188 c 190)"

definition isspace :: "char \<Rightarrow> bool" where
  "isspace c = (between 9 c 13 \<or> between 28 c 32 \<or> code c = 133 \<or> code c = 160)"

text \<open>\<open>text.strip()\<close>\<close>

definition strip :: "string \<Rightarrow> string" where
  "strip s = rev (dropWhile isspace (rev (dropWhile isspace s)))"

text \<open>\<open>s.split(' ')\<close>: the pieces between single spaces, empty pieces included.\<close>

fun split_sp :: "string \<Rightarrow> string list" where
  "split_sp [] = [[]]"
| "split_sp (c # cs) =
     (if c = CHR '' '' then [] # split_sp cs
      else (case split_sp cs of [] \<Rightarrow> [[c]] | w # ws \<Rightarrow> (c # w) # ws))"

section \<open>Regular expressions of the script\<close>

text \<open>
  \<open>pattern.sub(repl, s)\<close> scans \<open>s\<close> from the left. Where the pattern matches at the
  current position, the replacement is emitted and the scan goes on behind the match;
  elsewhere the character is copied. A pattern is modelled by its matcher at the start
  of a string, which returns the matched text and the text of group 1. None of the six
  patterns matches the empty string, so a match has a first character and the scan goes
  on behind it.
\<close>

type_synonym matcher = "string \<Rightarrow> (string \<times> string) option"

fun re_sub :: "matcher \<Rightarrow> (string \<Rightarrow> string) \<Rightarrow> string \<Rightarrow> string" where
  "re_sub m repl [] = []"
| "re_sub m repl (c # cs) =
     (case m (c # cs) of
        None \<Rightarrow> c # re_sub m repl cs
      | Some (matched, g1) \<Rightarrow> repl g1 @ re_sub m repl (drop (length matched - 1) cs))"

definition starts_with :: "string \<Rightarrow> string \<Rightarrow> bool" where
  "starts_with p s = (take (length p) s = p)"

text \<open>
  \<open>url_regex\<close>: \<open>http[s]?://(?:[a-zA-Z]|[0-9]|[$-_@.&+]|[!*\(\), ]|(?:%[0-9a-fA-F][0-9a-fA-F]))+\<close>.
  The class \<open>[$-_@.&+]\<close> is the range from \<open>$\<close> (36) to \<open>_\<close> (95) with four characters
  of that range named again; it holds \<open>%\<close>, so the last alternative, a percent sign and
  two hexadecimal digits, matches nothing that the one-character alternatives before it
  do not match, and the repetition takes the longest run of \<open>url_char\<close>.
\<close>

definition url_char :: "char \<Rightarrow> bool" where
  "url_char c = (is_ascii_letter c \<or> is_ascii_digit c
     \<or> (between 36 c 95 \<or> c \<in> set ''@.&+'') \<or> c \<in> set ''!*(), '')"

definition url_regex :: matcher where
  "url_regex s =
     (if starts_with ''http'' s then
        (let s1 = drop 4 s;
             opt_s = (if starts_with ''s'' s1 then ''s'' else '''');
             s2 = drop (length opt_s) s1
         in if starts_with ''://'' s2 then
              (let body = takeWhile url_char (drop 3 s2)
               in if body = [] then None
                  else Some (''http'' @ opt_s @ ''://'' @ body, ''''))
            else None)
      else None)"

text \<open>\<open>pic_url_regex\<close>: \<open>pic\.twitter\.com\/\w+\<close>\<close>

definition pic_url_regex :: matcher where
  "pic_url_regex s =
     (if starts_with ''pic.twitter.com/'' s then
        (let name = takeWhile is_word (drop 16 s)
         in if name = [] then None else Some (''pic.twitter.com/'' @ name, ''''))
      else None)"

text \<open>
  \<open>multi_dot_regex\<close>: \<open>( *(\.( *))+)\<close>: spaces, then one or more times a period and
  spaces; behind the first period that is the longest run of periods and spaces.
\<close>

definition multi_dot_regex :: matcher where
  "multi_dot_regex s =
     (let spaces = takeWhile (\<lambda>c. c = CHR '' '') s;
          s1 = dropWhile (\<lambda>c. c = CHR '' '') s
      in if starts_with ''.'' s1 then
           Some (spaces @ takeWhile (\<lambda>c. c = CHR ''.'' \<or> c = CHR '' '') s1, '''')
         else None)"

text \<open>
  \<open>mention_regex\<close>: \<open>@(\w{1,15})( )*(:)*\<close>; group 1 is the handle, at most 15 word
  characters.
\<close>

definition mention_regex :: matcher where
  "mention_regex s =
     (if starts_with ''@'' s then
        (let handle = takeWhile is_word (take 15 (drop 1 s));
             s1 = drop (length handle) (drop 1 s);
             spaces = takeWhile (\<lambda>c. c = CHR '' '') s1;
             colons = takeWhile (\<lambda>c. c = CHR '':'') (dropWhile (\<lambda>c. c = CHR '' '') s1)
         in if handle = [] then None
            else Some (''@'' @ handle @ spaces @ colons, handle))
      else None)"

text \<open>
  \<open>hashtag_regex\<close>: \<open>#\w*[a-zA-Z]+\w*\<close>: the run of word characters behind the \<open>#\<close>,
  when it holds an ASCII letter (the first \<open>\w*\<close> gives back characters down to the last
  such letter, the second takes the run to its end).
\<close>

definition hashtag_regex :: matcher where
  "hashtag_regex s =
     (if starts_with ''#'' s then
        (let run = takeWhile is_word (drop 1 s)
         in if list_ex is_ascii_letter run then Some (''#'' @ run, '''') else None)
      else None)"

text \<open>\<open>multi_space_regex\<close>: \<open>(\s+|\n+)\<close>; a line feed is in \<open>\s\<close>.\<close>

definition multi_space_regex :: matcher where
  "multi_space_regex s =
     (let run = takeWhile isspace s in if run = [] then None else Some (run, ''''))"

section \<open>The normalizer\<close>

definition clean_mention :: "string \<Rightarrow> string" where
  "clean_mention group1 = map (\<lambda>s. if isalpha s then s else CHR '' '') group1"

definition clean_line_mod :: "string \<Rightarrow> string" where
  "clean_line_mod line0 =
     (let line = (if take 3 line0 = ''RT '' then drop 3 line0 else line0);
          cleaned_line = re_sub url_regex (\<lambda>_. '''') line;
          cleaned_line = re_sub pic_url_regex (\<lambda>_. '''') cleaned_line;
          cleaned_line = re_sub multi_dot_regex (\<lambda>_. '' . '') cleaned_line;
          cleaned_line = re_sub mention_regex clean_mention cleaned_line;
          cleaned_line = re_sub hashtag_regex (\<lambda>_. '' '') cleaned_line;
          cleaned_line = re_sub multi_space_regex (\<lambda>_. '' '') cleaned_line
      in cleaned_line)"

section \<open>Text extraction from a record\<close>

text \<open>
  Exceptions are values: a function that can raise returns \<open>error + 'a\<close>, with \<open>Inl\<close> for
  the exception.
\<close>

datatype error = KeyError | TypeError | AttributeError | JSONDecodeError
  | FileNotFoundError | SameFileError

text \<open>
  What \<open>json.loads\<close> returns: \<open>None\<close>, a bool, a number, a \<open>str\<close>, a list, or a dict,
  which is kept as the list of its items and read with \<open>map_of\<close>.
\<close>

datatype json = JNull | JBool bool | JNum int | JStr string | JArr "json list"
  | JObj "(string \<times> json) list"

definition is_substring :: "string \<Rightarrow> string \<Rightarrow> bool" where
  "is_substring k s = list_ex (\<lambda>n. take (length k) (drop n s) = k) [0..<Suc (length s)]"

text \<open>\<open>k in v\<close> for a string \<open>k\<close>\<close>

fun py_in :: "string \<Rightarrow> json \<Rightarrow> error + bool" where
  "py_in k (JObj d) = Inr (map_of d k \<noteq> None)"
| "py_in k (JStr s) = Inr (is_substring k s)"
| "py_in k (JArr vs) = Inr (JStr k \<in> set vs)"
| "py_in k _ = Inl TypeError"

text \<open>\<open>v[k]\<close> for a string \<open>k\<close>: only a dict takes a string as subscript.\<close>

fun subscript :: "json \<Rightarrow> string \<Rightarrow> error + json" where
  "subscript (JObj d) k = (case map_of d k of None \<Rightarrow> Inl KeyError | Some v \<Rightarrow> Inr v)"
| "subscript _ k = Inl TypeError"

fun get_text_from_tweet :: "json \<Rightarrow> error + json" where
  "get_text_from_tweet (JObj d) =
     (if map_of d ''retweeted_status'' \<noteq> None then
        (case subscript (JObj d) ''retweeted_status'' of
           Inl e \<Rightarrow> Inl e
         | Inr retweeted_status \<Rightarrow>
            (case py_in ''extended_tweet'' retweeted_status of
               Inl e \<Rightarrow> Inl e
             | Inr True \<Rightarrow>
                (case subscript retweeted_status ''extended_tweet'' of
                   Inl e \<Rightarrow> Inl e
                 | Inr extended_tweet \<Rightarrow> subscript extended_tweet ''full_text'')
             | Inr False \<Rightarrow> subscript retweeted_status ''text''))
      else
        (case py_in ''extended_tweet'' (JObj d) of
           Inl e \<Rightarrow> Inl e
         | Inr True \<Rightarrow>
            (case subscript (JObj d) ''extended_tweet'' of
               Inl e \<Rightarrow> Inl e
             | Inr extended_tweet \<Rightarrow> subscript extended_tweet ''full_text'')
         | Inr False \<Rightarrow> subscript (JObj d) ''text''))"
| "get_text_from_tweet _ = Inl AttributeError"

text \<open>
  The precedence rule in the words of the specification: the four sources of a record,
  in order, each present or not, and the first one present.
\<close>

definition field :: "string \<Rightarrow> json \<Rightarrow> json option" where
  "field k v = (case v of JObj d \<Rightarrow> map_of d k | _ \<Rightarrow> None)"

definition extended_text :: "json \<Rightarrow> json option" where
  "extended_text r = (case field ''extended_tweet'' r of None \<Rightarrow> None | Some e \<Rightarrow> field ''full_text'' e)"

definition short_text :: "json \<Rightarrow> json option" where
  "short_text r = field ''text'' r"

definition sources :: "json \<Rightarrow> json option list" where
  "sources tweet =
     [case field ''retweeted_status'' tweet of None \<Rightarrow> None | Some r \<Rightarrow> extended_text r,
      case field ''retweeted_status'' tweet of None \<Rightarrow> None | Some r \<Rightarrow> short_text r,
      extended_text tweet,
      short_text tweet]"

fun first_present :: "'a option list \<Rightarrow> 'a option" where
  "first_present [] = None"
| "first_present (None # xs) = first_present xs"
| "first_present (Some x # xs) = Some x"

definition precedence_rule :: "json \<Rightarrow> json option" where
  "precedence_rule tweet = first_present (sources tweet)"

text \<open>
  A record of the data model: a dict with the short text, whose extended text, when
  there is one, is a dict with the full text; its reshared record, when there is one, is
  such a record too.
\<close>

definition wf_record :: "json \<Rightarrow> bool" where
  "wf_record r =
     (short_text r \<noteq> None \<and>
      (case field ''extended_tweet'' r of None \<Rightarrow> True | Some e \<Rightarrow> field ''full_text'' e \<noteq> None))"

definition wf_tweet :: "json \<Rightarrow> bool" where
  "wf_tweet tweet =
     (wf_record tweet \<and>
      (case field ''retweeted_status'' tweet of None \<Rightarrow> True | Some r \<Rightarrow> wf_record r))"

section \<open>The write pass\<close>

text \<open>
  The tokenizer \<open>mt.tokenize(_, return_str=True, protected_patterns=[])\<close> is a parameter
  \<open>mt\<close>, a function from the stripped text to the tokenized line. The generator
  \<open>text_iter\<close> is the list of what is still to come from it: each \<open>next\<close> yields a text
  (\<open>Inr\<close>) or raises (\<open>Inl\<close>), and a generator that has raised is finished.
\<close>

type_synonym path = "string list"

datatype mode = W | A

datatype msg = Writing path | Processed nat int | Summary path nat int | Copying path path path

datatype loop_exit = Exhausted | Break | Raised error

record pass_state =
  f_out :: string
  total_num_tokens :: int
  i :: nat
  printed :: "msg list"

definition newline :: char where
  "newline = CHR 0x0A"

definition tokens :: "(string \<Rightarrow> string) \<Rightarrow> string \<Rightarrow> string list" where
  "tokens mt text = filter (\<lambda>token. token \<noteq> []) (split_sp (mt (strip text)))"

definition num_tokens_tweet :: "(string \<Rightarrow> string) \<Rightarrow> string \<Rightarrow> int" where
  "num_tokens_tweet mt text = 0 + (int (length (tokens mt text)) + 1)"

text \<open>\<open>num_tokens is not None and total_num_tokens > num_tokens\<close>\<close>

definition exceeds :: "int \<Rightarrow> int option \<Rightarrow> bool" where
  "exceeds total_tokens num_tokens =
     (case num_tokens of None \<Rightarrow> False | Some b \<Rightarrow> total_tokens > b)"

text \<open>The progress report at the end of the loop body, after a record was written\<close>

definition report :: "pass_state \<Rightarrow> pass_state" where
  "report p =
     (if i p mod 10000 = 0 \<and> i p > 0
      then p\<lparr>printed := printed p @ [Processed (i p) (total_num_tokens p)]\<rparr>
      else p)"

text \<open>
  The body of \<open>for i, text in enumerate(text_iter)\<close>; \<open>k\<close> is the next index of
  \<open>enumerate\<close>. The result is the state at the end of the loop, what is left in the
  generator, and how the loop ended.
\<close>

fun write_loop :: "(string \<Rightarrow> string) \<Rightarrow> int option \<Rightarrow> int \<Rightarrow> nat \<Rightarrow> (error + string) list
    \<Rightarrow> pass_state \<Rightarrow> pass_state \<times> (error + string) list \<times> loop_exit" where
  "write_loop mt num_tokens num_tokens_tweet_min k [] p = (p, [], Exhausted)"
| "write_loop mt num_tokens num_tokens_tweet_min k (Inl e # rest) p = (p, [], Raised e)"
| "write_loop mt num_tokens num_tokens_tweet_min k (Inr text # rest) p =
     (let p1 = p\<lparr>i := k\<rparr>;
          tokenized = mt (strip text)
      in if num_tokens_tweet mt text < num_tokens_tweet_min then
           write_loop mt num_tokens num_tokens_tweet_min (Suc k) rest p1
         else
           (let p2 = p1\<lparr>f_out := f_out p1 @ tokenized @ [newline],
                         total_num_tokens := total_num_tokens p1 + (num_tokens_tweet mt text + 1)\<rparr>
            in if exceeds (total_num_tokens p2) num_tokens then
                 (p2, rest, Break)
               else
                 write_loop mt num_tokens num_tokens_tweet_min (Suc k) rest (report p2)))"

text \<open>
  The file system is a map from paths to contents. \<open>open\<close> with mode \<open>'w'\<close> starts from
  the empty file, with mode \<open>'a'\<close> from the contents there are; leaving the \<open>with\<close> block
  closes the file, which then holds what was written. The directories exist (\<open>main\<close>
  made them), so \<open>open\<close> succeeds. An exception ends the run: the model gives no world
  then.
\<close>

record world =
  files :: "path \<Rightarrow> string option"
  stdout :: "msg list"
  text_iter :: "(error + string) list"

definition write_tweettext :: "path \<Rightarrow> (string \<Rightarrow> string) \<Rightarrow> int option \<Rightarrow> mode \<Rightarrow> int
    \<Rightarrow> world \<Rightarrow> error + world" where
  "write_tweettext file_path mt num_tokens md num_tokens_tweet_min w =
     (let w1 = w\<lparr>stdout := stdout w @ [Writing file_path]\<rparr>;
          opened = (case md of W \<Rightarrow> [] | A \<Rightarrow> (case files w1 file_path of None \<Rightarrow> [] | Some c \<Rightarrow> c))
      in case write_loop mt num_tokens num_tokens_tweet_min 0 (text_iter w1)
                \<lparr>f_out = opened, total_num_tokens = 0, i = 0, printed = []\<rparr> of
           (p, rest, ex) \<Rightarrow>
             (let w2 = w1\<lparr>files := (files w1)(file_path \<mapsto> f_out p),
                          stdout := stdout w1 @ printed p,
                          text_iter := rest\<rparr>
              in case ex of
                   Raised e \<Rightarrow> Inl e
                 | _ \<Rightarrow> Inr (w2\<lparr>stdout := stdout w2 @ [Summary file_path (i p) (total_num_tokens p)]\<rparr>)))"

section \<open>The driver\<close>

text \<open>\<open>shutil.copyfile(src, dst)\<close>\<close>

definition copyfile :: "path \<Rightarrow> path \<Rightarrow> world \<Rightarrow> error + world" where
  "copyfile src dst w =
     (if src = dst then Inl SameFileError
      else case files w src of
             None \<Rightarrow> Inl FileNotFoundError
           | Some c \<Rightarrow> Inr (w\<lparr>files := (files w)(dst \<mapsto> c)\<rparr>))"

text \<open>A \<open>Path\<close> is the list of its components; \<open>p / name\<close> adds one.\<close>

definition path_div :: "path \<Rightarrow> string \<Rightarrow> path" where
  "path_div p name = p @ [name]"

definition tokens_file :: "string \<Rightarrow> string \<Rightarrow> string" where
  "tokens_file lang split = lang @ ''.tweets.'' @ split @ ''.tokens''"

text \<open>The loop \<open>for split, token_num in zip(splits, token_nums)\<close> of \<open>main\<close>\<close>

fun split_loop :: "string \<Rightarrow> path \<Rightarrow> path \<Rightarrow> path \<Rightarrow> (string \<Rightarrow> string) \<Rightarrow> int
    \<Rightarrow> (string \<times> int) list \<Rightarrow> world \<Rightarrow> error + world" where
  "split_loop lang sml_tweets lrg_tweets all_tweets mt tokens_min [] w = Inr w"
| "split_loop lang sml_tweets lrg_tweets all_tweets mt tokens_min ((split, token_num) # others) w =
     (let sml_file_path = path_div sml_tweets (tokens_file lang split)
      in case write_tweettext sml_file_path mt (Some token_num) W tokens_min w of
           Inl e \<Rightarrow> Inl e
         | Inr w1 \<Rightarrow>
            (let lrg_file_path = path_div lrg_tweets (tokens_file lang split);
                 all_file_path = path_div all_tweets (tokens_file lang split);
                 w2 = w1\<lparr>stdout := stdout w1 @ [Copying sml_file_path lrg_file_path all_file_path]\<rparr>
             in case copyfile sml_file_path lrg_file_path w2 of
                  Inl e \<Rightarrow> Inl e
                | Inr w3 \<Rightarrow>
                   (case copyfile sml_file_path all_file_path w3 of
                      Inl e \<Rightarrow> Inl e
                    | Inr w4 \<Rightarrow>
                       split_loop lang sml_tweets lrg_tweets all_tweets mt tokens_min others w4)))"

text \<open>
  \<open>main\<close> from the creation of \<open>text_iter\<close> on (the generator is in the world); the
  arguments are \<open>args.lang\<close>, \<open>args.output\<close>, the tokenizer and \<open>args.tokens_min\<close>.
\<close>

definition main :: "string \<Rightarrow> path \<Rightarrow> (string \<Rightarrow> string) \<Rightarrow> int \<Rightarrow> world \<Rightarrow> error + world" where
  "main lang output mt tokens_min w =
     (let sml_tweets = path_div output (lang @ ''-2'');
          lrg_tweets = path_div output (lang @ ''-100'');
          all_tweets = path_div output (lang @ ''-all'');
          splits = [''train'', ''valid'', ''test''];
          token_nums = [2000000, 200000, 200000]
      in case split_loop lang sml_tweets lrg_tweets all_tweets mt tokens_min (zip splits token_nums) w of
           Inl e \<Rightarrow> Inl e
         | Inr w1 \<Rightarrow>
            (let lrg_tweets_train = path_div lrg_tweets (tokens_file lang ''train'')
             in case write_tweettext lrg_tweets_train mt (Some 98000000) A tokens_min w1 of
                  Inl e \<Rightarrow> Inl e
                | Inr w2 \<Rightarrow>
                   (let all_tweets_train = path_div all_tweets (tokens_file lang ''train'')
                    in case copyfile lrg_tweets_train all_tweets_train w2 of
                         Inl e \<Rightarrow> Inl e
                       | Inr w3 \<Rightarrow> write_tweettext all_tweets_train mt None A tokens_min w3)))"

section \<open>Describing a pass\<close>

text \<open>
  What a pass does with the texts it has taken from the generator: a text is accepted
  unless its accounted value is below the threshold; the accepted texts give the lines
  written and the amounts added to the running total.
\<close>

definition accepted :: "(string \<Rightarrow> string) \<Rightarrow> int \<Rightarrow> string \<Rightarrow> bool" where
  "accepted mt tmin text = (\<not> num_tokens_tweet mt text < tmin)"

definition line_of :: "(string \<Rightarrow> string) \<Rightarrow> string \<Rightarrow> string" where
  "line_of mt text = mt (strip text) @ [newline]"

definition lines_of :: "(string \<Rightarrow> string) \<Rightarrow> int \<Rightarrow> string list \<Rightarrow> string" where
  "lines_of mt tmin texts = concat (map (line_of mt) (filter (accepted mt tmin) texts))"

definition counted :: "(string \<Rightarrow> string) \<Rightarrow> int \<Rightarrow> string list \<Rightarrow> int" where
  "counted mt tmin texts =
     sum_list (map (\<lambda>text. num_tokens_tweet mt text + 1) (filter (accepted mt tmin) texts))"

text \<open>The state in which \<open>write_tweettext\<close> enters the loop, on a file opened with contents \<open>c\<close>\<close>

definition start :: "string \<Rightarrow> pass_state" where
  "start c = \<lparr>f_out = c, total_num_tokens = 0, i = 0, printed = []\<rparr>"

text \<open>A pass on a new file: what it writes and what it leaves in the generator\<close>

definition written :: "(string \<Rightarrow> string) \<Rightarrow> int option \<Rightarrow> int \<Rightarrow> (error + string) list \<Rightarrow> string" where
  "written mt num_tokens tmin items = f_out (fst (write_loop mt num_tokens tmin 0 items (start [])))"

definition remaining :: "(string \<Rightarrow> string) \<Rightarrow> int option \<Rightarrow> int \<Rightarrow> (error + string) list
    \<Rightarrow> (error + string) list" where
  "remaining mt num_tokens tmin items = fst (snd (write_loop mt num_tokens tmin 0 items (start [])))"

text \<open>A generator that raises nowhere\<close>

definition all_texts :: "(error + string) list \<Rightarrow> bool" where
  "all_texts items = list_all (\<lambda>x. case x of Inl e \<Rightarrow> False | Inr t \<Rightarrow> True) items"

text \<open>What of a pass does not depend on the index of \<open>enumerate\<close>\<close>

definition outcome :: "pass_state \<times> (error + string) list \<times> loop_exit \<Rightarrow> string \<times> int \<times> loop_exit" where
  "outcome r = (f_out (fst r), total_num_tokens (fst r), snd (snd r))"

section \<open>Describing the normalizer\<close>

text \<open>
  The steps of \<open>clean_line_mod\<close> before its mention step (the repost marker, links, image
  links, runs of periods) and the steps behind it (hashtags, whitespace)
\<close>

definition before_mentions :: "string \<Rightarrow> string" where
  "before_mentions line0 =
     (let line = (if take 3 line0 = ''RT '' then drop 3 line0 else line0);
          cleaned_line = re_sub url_regex (\<lambda>_. '''') line;
          cleaned_line = re_sub pic_url_regex (\<lambda>_. '''') cleaned_line;
          cleaned_line = re_sub multi_dot_regex (\<lambda>_. '' . '') cleaned_line
      in cleaned_line)"

definition after_mentions :: "string \<Rightarrow> string" where
  "after_mentions cleaned_line0 =
     (let cleaned_line = re_sub hashtag_regex (\<lambda>_. '' '') cleaned_line0;
          cleaned_line = re_sub multi_space_regex (\<lambda>_. '' '') cleaned_line
      in cleaned_line)"

text \<open>The pattern matches at some position of the string.\<close>

fun matches_in :: "matcher \<Rightarrow> string \<Rightarrow> bool" where
  "matches_in m [] = False"
| "matches_in m (c # cs) = (case m (c # cs) of None \<Rightarrow> matches_in m cs | Some _ \<Rightarrow> True)"

text \<open>Every period of the string has a space behind it.\<close>

fun dot_spaced :: "string \<Rightarrow> bool" where
  "dot_spaced [] = True"
| "dot_spaced (c # cs) = ((c = CHR ''.'' \<longrightarrow> take 1 cs = '' '') \<and> dot_spaced cs)"

section \<open>Properties of the write pass\<close>

lemma report_simps [simp]:
  "f_out (report p) = f_out p"
  "total_num_tokens (report p) = total_num_tokens p"
  "i (report p) = i p"
  by (simp_all add: report_def)

text \<open>The three ways through the loop body\<close>

lemma loop_reject:
  "num_tokens_tweet mt tx < tmin \<Longrightarrow>
   write_loop mt nt tmin k (Inr tx # xs) p = write_loop mt nt tmin (Suc k) xs (p\<lparr>i := k\<rparr>)"
  by simp

lemma loop_break:
  "\<not> num_tokens_tweet mt tx < tmin \<Longrightarrow>
   exceeds (total_num_tokens p + (num_tokens_tweet mt tx + 1)) nt \<Longrightarrow>
   write_loop mt nt tmin k (Inr tx # xs) p =
     (p\<lparr>i := k, f_out := f_out p @ mt (strip tx) @ [newline],
        total_num_tokens := total_num_tokens p + (num_tokens_tweet mt tx + 1)\<rparr>, xs, Break)"
  by (simp add: Let_def)

lemma loop_continue:
  "\<not> num_tokens_tweet mt tx < tmin \<Longrightarrow>
   \<not> exceeds (total_num_tokens p + (num_tokens_tweet mt tx + 1)) nt \<Longrightarrow>
   write_loop mt nt tmin k (Inr tx # xs) p =
     write_loop mt nt tmin (Suc k) xs
       (report (p\<lparr>i := k, f_out := f_out p @ mt (strip tx) @ [newline],
          total_num_tokens := total_num_tokens p + (num_tokens_tweet mt tx + 1)\<rparr>))"
  by (simp add: Let_def)

lemma counted_Nil [simp]: "counted mt tmin [] = 0"
  by (simp add: counted_def)

lemma counted_Cons:
  "counted mt tmin (tx # ts) =
     (if accepted mt tmin tx then num_tokens_tweet mt tx + 1 else 0) + counted mt tmin ts"
  by (simp add: counted_def)

lemma lines_of_Nil [simp]: "lines_of mt tmin [] = []"
  by (simp add: lines_of_def)

lemma lines_of_Cons:
  "lines_of mt tmin (tx # ts) =
     (if accepted mt tmin tx then line_of mt tx else []) @ lines_of mt tmin ts"
  by (simp add: lines_of_def)

text \<open>
  A bound on the running total behind every accepted text of a list goes over to the
  list with one more text in front.
\<close>

lemma prefix_bound_Cons:
  assumes "\<forall>n<length ts. accepted mt tmin (ts ! n) \<longrightarrow> t1 + counted mt tmin (take (Suc n) ts) \<le> b"
    and "t1 = t0 + (if accepted mt tmin tx then num_tokens_tweet mt tx + 1 else 0)"
    and "accepted mt tmin tx \<Longrightarrow> t1 \<le> b"
  shows "\<forall>n<length (tx # ts). accepted mt tmin ((tx # ts) ! n) \<longrightarrow>
           t0 + counted mt tmin (take (Suc n) (tx # ts)) \<le> b"
proof (intro allI impI)
  fix n
  assume n: "n < length (tx # ts)" "accepted mt tmin ((tx # ts) ! n)"
  show "t0 + counted mt tmin (take (Suc n) (tx # ts)) \<le> b"
  proof (cases n)
    case 0
    with n assms(2,3) show ?thesis by (simp add: counted_Cons)
  next
    case (Suc m)
    with n assms(1,2) show ?thesis by (simp add: counted_Cons add.assoc)
  qed
qed

text \<open>
  C1. In a pass with a budget \<open>b\<close>: when the loop ends at the \<open>break\<close>, the running total
  is greater than \<open>b\<close>; the generator was read up to an accepted text and no further, the
  line of that text is the last one written, and the running total behind every
  accepted text before it was at most \<open>b\<close>. When the loop ends because the generator is
  exhausted, the running total behind every accepted text was at most \<open>b\<close>. So the pass
  stops at the first accepted record that takes the total over the budget, behind the
  write of that record.
\<close>

theorem budget_stop:
  "write_loop mt (Some b) tmin k items p = (p', rest, ex) \<Longrightarrow>
   (ex = Break \<longrightarrow>
      b < total_num_tokens p' \<and>
      (\<exists>pre tx. items = map Inr pre @ Inr tx # rest \<and> accepted mt tmin tx
         \<and> f_out p' = f_out p @ lines_of mt tmin pre @ line_of mt tx
         \<and> total_num_tokens p' = total_num_tokens p + counted mt tmin pre + (num_tokens_tweet mt tx + 1)
         \<and> (\<forall>n<length pre. accepted mt tmin (pre ! n) \<longrightarrow>
               total_num_tokens p + counted mt tmin (take (Suc n) pre) \<le> b))) \<and>
   (ex = Exhausted \<longrightarrow>
      rest = [] \<and>
      (\<exists>texts. items = map Inr texts
         \<and> (\<forall>n<length texts. accepted mt tmin (texts ! n) \<longrightarrow>
               total_num_tokens p + counted mt tmin (take (Suc n) texts) \<le> b)))"
proof (induction items arbitrary: k p)
  case Nil
  then show ?case by auto
next
  case (Cons x xs)
  show ?case
  proof (cases x)
    case (Inl e)
    with Cons.prems show ?thesis by auto
  next
    case (Inr tx)
    let ?t1 = "total_num_tokens p + (if accepted mt tmin tx then num_tokens_tweet mt tx + 1 else 0)"
    have step: ?thesis
      if run: "write_loop mt (Some b) tmin (Suc k) xs q = (p', rest, ex)"
        and fq: "f_out q = f_out p @ (if accepted mt tmin tx then line_of mt tx else [])"
        and tq: "total_num_tokens q = ?t1"
        and le: "accepted mt tmin tx \<Longrightarrow> ?t1 \<le> b"
      for q
    proof (rule conjI; rule impI)
      assume "ex = Break"
      with Cons.IH[OF run] obtain pre t where
        h: "b < total_num_tokens p'" "xs = map Inr pre @ Inr t # rest" "accepted mt tmin t"
           "f_out p' = f_out q @ lines_of mt tmin pre @ line_of mt t"
           "total_num_tokens p' = total_num_tokens q + counted mt tmin pre + (num_tokens_tweet mt t + 1)"
           "\<forall>n<length pre. accepted mt tmin (pre ! n) \<longrightarrow>
               total_num_tokens q + counted mt tmin (take (Suc n) pre) \<le> b"
        by auto
      from h(6) tq le
      have "\<forall>n<length (tx # pre). accepted mt tmin ((tx # pre) ! n) \<longrightarrow>
               total_num_tokens p + counted mt tmin (take (Suc n) (tx # pre)) \<le> b"
        by (intro prefix_bound_Cons[where ?t1.0 = ?t1]) simp_all
      with h fq tq Inr
      have "x # xs = map Inr (tx # pre) @ Inr t # rest \<and> accepted mt tmin t
         \<and> f_out p' = f_out p @ lines_of mt tmin (tx # pre) @ line_of mt t
         \<and> total_num_tokens p' = total_num_tokens p + counted mt tmin (tx # pre) + (num_tokens_tweet mt t + 1)
         \<and> (\<forall>n<length (tx # pre). accepted mt tmin ((tx # pre) ! n) \<longrightarrow>
               total_num_tokens p + counted mt tmin (take (Suc n) (tx # pre)) \<le> b)"
        by (simp add: counted_Cons lines_of_Cons)
      then have "\<exists>t. x # xs = map Inr (tx # pre) @ Inr t # rest \<and> accepted mt tmin t
         \<and> f_out p' = f_out p @ lines_of mt tmin (tx # pre) @ line_of mt t
         \<and> total_num_tokens p' = total_num_tokens p + counted mt tmin (tx # pre) + (num_tokens_tweet mt t + 1)
         \<and> (\<forall>n<length (tx # pre). accepted mt tmin ((tx # pre) ! n) \<longrightarrow>
               total_num_tokens p + counted mt tmin (take (Suc n) (tx # pre)) \<le> b)"
        by (rule exI[of _ t])
      then have "\<exists>pre t. x # xs = map Inr pre @ Inr t # rest \<and> accepted mt tmin t
         \<and> f_out p' = f_out p @ lines_of mt tmin pre @ line_of mt t
         \<and> total_num_tokens p' = total_num_tokens p + counted mt tmin pre + (num_tokens_tweet mt t + 1)
         \<and> (\<forall>n<length pre. accepted mt tmin (pre ! n) \<longrightarrow>
               total_num_tokens p + counted mt tmin (take (Suc n) pre) \<le> b)"
        by (rule exI[of _ "tx # pre"])
      with h(1) show "b < total_num_tokens p' \<and>
        (\<exists>pre t. x # xs = map Inr pre @ Inr t # rest \<and> accepted mt tmin t
         \<and> f_out p' = f_out p @ lines_of mt tmin pre @ line_of mt t
         \<and> total_num_tokens p' = total_num_tokens p + counted mt tmin pre + (num_tokens_tweet mt t + 1)
         \<and> (\<forall>n<length pre. accepted mt tmin (pre ! n) \<longrightarrow>
               total_num_tokens p + counted mt tmin (take (Suc n) pre) \<le> b))"
        by (rule conjI)
    next
      assume "ex = Exhausted"
      with Cons.IH[OF run] obtain texts where
        h: "rest = []" "xs = map Inr texts"
           "\<forall>n<length texts. accepted mt tmin (texts ! n) \<longrightarrow>
               total_num_tokens q + counted mt tmin (take (Suc n) texts) \<le> b"
        by auto
      from h(3) tq le
      have "\<forall>n<length (tx # texts). accepted mt tmin ((tx # texts) ! n) \<longrightarrow>
               total_num_tokens p + counted mt tmin (take (Suc n) (tx # texts)) \<le> b"
        by (intro prefix_bound_Cons[where ?t1.0 = ?t1]) simp_all
      with h Inr
      have "x # xs = map Inr (tx # texts)
         \<and> (\<forall>n<length (tx # texts). accepted mt tmin ((tx # texts) ! n) \<longrightarrow>
               total_num_tokens p + counted mt tmin (take (Suc n) (tx # texts)) \<le> b)"
        by simp
      then have "\<exists>texts. x # xs = map Inr texts
         \<and> (\<forall>n<length texts. accepted mt tmin (texts ! n) \<longrightarrow>
               total_num_tokens p + counted mt tmin (take (Suc n) texts) \<le> b)"
        by (rule exI[of _ "tx # texts"])
      with h(1) show "rest = [] \<and>
        (\<exists>texts. x # xs = map Inr texts
         \<and> (\<forall>n<length texts. accepted mt tmin (texts ! n) \<longrightarrow>
               total_num_tokens p + counted mt tmin (take (Suc n) texts) \<le> b))"
        by (rule conjI)
    qed
    show ?thesis
    proof (cases "num_tokens_tweet mt tx < tmin")
      case True
      with Cons.prems Inr
      have "write_loop mt (Some b) tmin (Suc k) xs (p\<lparr>i := k\<rparr>) = (p', rest, ex)"
        by simp
      with True show ?thesis
        by (intro step[of "p\<lparr>i := k\<rparr>"]) (simp_all add: accepted_def)
    next
      case False
      let ?p2 = "p\<lparr>i := k, f_out := f_out p @ mt (strip tx) @ [newline],
          total_num_tokens := total_num_tokens p + (num_tokens_tweet mt tx + 1)\<rparr>"
      show ?thesis
      proof (cases "b < total_num_tokens p + (num_tokens_tweet mt tx + 1)")
        case True
        then have "exceeds (total_num_tokens p + (num_tokens_tweet mt tx + 1)) (Some b)"
          by (simp add: exceeds_def)
        from loop_break[OF False this, of k xs] Cons.prems Inr
        have r: "p' = ?p2" "rest = xs" "ex = Break"
          by simp_all
        have "x # xs = map Inr [] @ Inr tx # rest \<and> accepted mt tmin tx
           \<and> f_out p' = f_out p @ lines_of mt tmin [] @ line_of mt tx
           \<and> total_num_tokens p' = total_num_tokens p + counted mt tmin [] + (num_tokens_tweet mt tx + 1)
           \<and> (\<forall>n<length ([]::string list). accepted mt tmin ([] ! n) \<longrightarrow>
                 total_num_tokens p + counted mt tmin (take (Suc n) []) \<le> b)"
          using r False Inr by (simp add: line_of_def accepted_def)
        then have "\<exists>t. x # xs = map Inr [] @ Inr t # rest \<and> accepted mt tmin t
         \<and> f_out p' = f_out p @ lines_of mt tmin [] @ line_of mt t
         \<and> total_num_tokens p' = total_num_tokens p + counted mt tmin [] + (num_tokens_tweet mt t + 1)
         \<and> (\<forall>n<length ([]::string list). accepted mt tmin ([] ! n) \<longrightarrow>
               total_num_tokens p + counted mt tmin (take (Suc n) []) \<le> b)"
          by (rule exI[of _ tx])
        then have "\<exists>pre t. x # xs = map Inr pre @ Inr t # rest \<and> accepted mt tmin t
         \<and> f_out p' = f_out p @ lines_of mt tmin pre @ line_of mt t
         \<and> total_num_tokens p' = total_num_tokens p + counted mt tmin pre + (num_tokens_tweet mt t + 1)
         \<and> (\<forall>n<length pre. accepted mt tmin (pre ! n) \<longrightarrow>
               total_num_tokens p + counted mt tmin (take (Suc n) pre) \<le> b)"
          by (rule exI[of _ "[]"])
        with r True show ?thesis by simp
      next
        case nb: False
        then have "\<not> exceeds (total_num_tokens p + (num_tokens_tweet mt tx + 1)) (Some b)"
          by (simp add: exceeds_def)
        from loop_continue[OF False this, of k xs] Cons.prems Inr
        have "write_loop mt (Some b) tmin (Suc k) xs (report ?p2) = (p', rest, ex)"
          by simp
        with False nb show ?thesis
          by (intro step[of "report ?p2"]) (simp_all add: accepted_def line_of_def)
      qed
    qed
  qed
qed

theorem budget_stop_witness:
  "write_loop id (Some 5) 2 0 [Inr ''a b'', Inr ''c'', Inr ''d e''] (start []) =
     (\<lparr>f_out = ''a b'' @ [newline] @ ''c'' @ [newline], total_num_tokens = 7, i = 1, printed = []\<rparr>,
      [Inr ''d e''], Break)
   \<and> (5::int) < total_num_tokens
       \<lparr>f_out = ''a b'' @ [newline] @ ''c'' @ [newline], total_num_tokens = 7, i = 1, printed = []\<rparr>"
proof -
  have run: "write_loop id (Some 5) 2 0 [Inr ''a b'', Inr ''c'', Inr ''d e''] (start []) =
     (\<lparr>f_out = ''a b'' @ [newline] @ ''c'' @ [newline], total_num_tokens = 7, i = 1, printed = []\<rparr>,
      [Inr ''d e''], Break)"
    by (simp add: num_tokens_tweet_def tokens_def strip_def isspace_def between_def code_def
        exceeds_def report_def start_def Let_def)
  from budget_stop[OF run] run show ?thesis by simp
qed

text \<open>
  When no accepted text of a list takes the running total over the budget, the same
  holds behind its first text.
\<close>

lemma no_exceed_tail:
  assumes "\<forall>n<length (tx # ts). accepted mt tmin ((tx # ts) ! n) \<longrightarrow>
             \<not> exceeds (t0 + counted mt tmin (take (Suc n) (tx # ts))) nt"
  shows "\<forall>n<length ts. accepted mt tmin (ts ! n) \<longrightarrow>
           \<not> exceeds (t0 + (if accepted mt tmin tx then num_tokens_tweet mt tx + 1 else 0)
                        + counted mt tmin (take (Suc n) ts)) nt"
proof (intro allI impI)
  fix n
  assume "n < length ts" "accepted mt tmin (ts ! n)"
  with assms[rule_format, of "Suc n"] show "\<not> exceeds (t0 + (if accepted mt tmin tx then num_tokens_tweet mt tx + 1 else 0)
                        + counted mt tmin (take (Suc n) ts)) nt"
    by (simp add: counted_Cons add.assoc)
qed

text \<open>The loop over texts of which none takes the total over the budget\<close>

lemma loop_runs_on:
  "\<forall>n<length texts. accepted mt tmin (texts ! n) \<longrightarrow>
      \<not> exceeds (total_num_tokens p + counted mt tmin (take (Suc n) texts)) nt \<Longrightarrow>
   \<exists>p'. write_loop mt nt tmin k (map Inr texts @ items) p = write_loop mt nt tmin (k + length texts) items p'
     \<and> f_out p' = f_out p @ lines_of mt tmin texts
     \<and> total_num_tokens p' = total_num_tokens p + counted mt tmin texts"
proof (induction texts arbitrary: k p)
  case Nil
  show ?case by (rule exI[of _ p]) simp
next
  case (Cons tx ts)
  note tail = no_exceed_tail[OF Cons.prems]
  show ?case
  proof (cases "num_tokens_tweet mt tx < tmin")
    case True
    then have rej: "\<not> accepted mt tmin tx" by (simp add: accepted_def)
    from tail rej have "\<forall>n<length ts. accepted mt tmin (ts ! n) \<longrightarrow>
      \<not> exceeds (total_num_tokens (p\<lparr>i := k\<rparr>) + counted mt tmin (take (Suc n) ts)) nt"
      by simp
    from Cons.IH[OF this, of "Suc k"] obtain p' where
      "write_loop mt nt tmin (Suc k) (map Inr ts @ items) (p\<lparr>i := k\<rparr>) =
         write_loop mt nt tmin (Suc k + length ts) items p'"
      "f_out p' = f_out (p\<lparr>i := k\<rparr>) @ lines_of mt tmin ts"
      "total_num_tokens p' = total_num_tokens (p\<lparr>i := k\<rparr>) + counted mt tmin ts"
      by blast
    with True rej have "write_loop mt nt tmin k (map Inr (tx # ts) @ items) p =
         write_loop mt nt tmin (k + length (tx # ts)) items p'
       \<and> f_out p' = f_out p @ lines_of mt tmin (tx # ts)
       \<and> total_num_tokens p' = total_num_tokens p + counted mt tmin (tx # ts)"
      by (simp add: loop_reject counted_Cons lines_of_Cons del: write_loop.simps)
    then show ?thesis by (rule exI[of _ p'])
  next
    case False
    then have acc: "accepted mt tmin tx" by (simp add: accepted_def)
    let ?p2 = "p\<lparr>i := k, f_out := f_out p @ mt (strip tx) @ [newline],
        total_num_tokens := total_num_tokens p + (num_tokens_tweet mt tx + 1)\<rparr>"
    from Cons.prems[rule_format, of 0] acc
    have nb: "\<not> exceeds (total_num_tokens p + (num_tokens_tweet mt tx + 1)) nt"
      by (simp add: counted_Cons)
    from tail acc have "\<forall>n<length ts. accepted mt tmin (ts ! n) \<longrightarrow>
      \<not> exceeds (total_num_tokens (report ?p2) + counted mt tmin (take (Suc n) ts)) nt"
      by simp
    from Cons.IH[OF this, of "Suc k"] obtain p' where
      "write_loop mt nt tmin (Suc k) (map Inr ts @ items) (report ?p2) =
         write_loop mt nt tmin (Suc k + length ts) items p'"
      "f_out p' = f_out (report ?p2) @ lines_of mt tmin ts"
      "total_num_tokens p' = total_num_tokens (report ?p2) + counted mt tmin ts"
      by blast
    with acc have "write_loop mt nt tmin k (map Inr (tx # ts) @ items) p =
         write_loop mt nt tmin (k + length (tx # ts)) items p'
       \<and> f_out p' = f_out p @ lines_of mt tmin (tx # ts)
       \<and> total_num_tokens p' = total_num_tokens p + counted mt tmin (tx # ts)"
      by (simp add: loop_continue[OF False nb] counted_Cons lines_of_Cons line_of_def
          del: write_loop.simps)
    then show ?thesis by (rule exI[of _ p'])
  qed
qed

lemma counted_tokens:
  "counted mt tmin texts =
     sum_list (map (\<lambda>t. int (length (tokens mt t)) + 2) (filter (accepted mt tmin) texts))"
  by (simp add: counted_def num_tokens_tweet_def add.commute)

lemma lines_of_written:
  "lines_of mt tmin texts =
     concat (map (\<lambda>t. mt (strip t) @ [newline]) (filter (accepted mt tmin) texts))"
proof -
  have "line_of mt = (\<lambda>t. mt (strip t) @ [newline])"
    by (rule ext) (simp add: line_of_def)
  then show ?thesis by (simp add: lines_of_def)
qed

text \<open>
  C2. A pass over texts of which none takes the running total over the budget reads
  them all, writes the lines of the accepted ones in their order and adds, for each
  accepted text and for no other, the number of tokens of its line plus two, which is
  the accounted value plus one. When the record behind such texts is accepted and takes
  the total over the budget, the pass writes it too, adds the number of its tokens plus
  two and ends there, leaving what follows unread.
\<close>

theorem accepted_adds_count_plus_one:
  assumes "\<forall>n<length texts. accepted mt tmin (texts ! n) \<longrightarrow>
      \<not> exceeds (total_num_tokens p + counted mt tmin (take (Suc n) texts)) nt"
  shows "(\<exists>p'. write_loop mt nt tmin k (map Inr texts) p = (p', [], Exhausted)
            \<and> f_out p' = f_out p
                @ concat (map (\<lambda>t. mt (strip t) @ [newline]) (filter (accepted mt tmin) texts))
            \<and> total_num_tokens p' = total_num_tokens p
                + sum_list (map (\<lambda>t. int (length (tokens mt t)) + 2) (filter (accepted mt tmin) texts)))
       \<and> (accepted mt tmin tx
            \<and> exceeds (total_num_tokens p + counted mt tmin texts + (num_tokens_tweet mt tx + 1)) nt \<longrightarrow>
          (\<exists>p'. write_loop mt nt tmin k (map Inr texts @ Inr tx # post) p = (p', post, Break)
            \<and> f_out p' = f_out p
                @ concat (map (\<lambda>t. mt (strip t) @ [newline]) (filter (accepted mt tmin) texts))
                @ mt (strip tx) @ [newline]
            \<and> total_num_tokens p' = total_num_tokens p
                + sum_list (map (\<lambda>t. int (length (tokens mt t)) + 2) (filter (accepted mt tmin) texts))
                + (int (length (tokens mt tx)) + 2)))
       \<and> num_tokens_tweet mt tx + 1 = int (length (tokens mt tx)) + 2"
proof (intro conjI impI)
  from loop_runs_on[OF assms, of k "[]"] obtain q where
    q: "write_loop mt nt tmin k (map Inr texts) p = write_loop mt nt tmin (k + length texts) [] q"
       "f_out q = f_out p @ lines_of mt tmin texts"
       "total_num_tokens q = total_num_tokens p + counted mt tmin texts"
    by auto
  then have "write_loop mt nt tmin k (map Inr texts) p = (q, [], Exhausted)
            \<and> f_out q = f_out p
                @ concat (map (\<lambda>t. mt (strip t) @ [newline]) (filter (accepted mt tmin) texts))
            \<and> total_num_tokens q = total_num_tokens p
                + sum_list (map (\<lambda>t. int (length (tokens mt t)) + 2) (filter (accepted mt tmin) texts))"
    by (simp add: counted_tokens[symmetric] lines_of_written[symmetric])
  then show "\<exists>p'. write_loop mt nt tmin k (map Inr texts) p = (p', [], Exhausted)
            \<and> f_out p' = f_out p
                @ concat (map (\<lambda>t. mt (strip t) @ [newline]) (filter (accepted mt tmin) texts))
            \<and> total_num_tokens p' = total_num_tokens p
                + sum_list (map (\<lambda>t. int (length (tokens mt t)) + 2) (filter (accepted mt tmin) texts))"
    by (rule exI[of _ q])
next
  assume a: "accepted mt tmin tx
            \<and> exceeds (total_num_tokens p + counted mt tmin texts + (num_tokens_tweet mt tx + 1)) nt"
  from loop_runs_on[OF assms, of k "Inr tx # post"] obtain q where
    q: "write_loop mt nt tmin k (map Inr texts @ Inr tx # post) p =
          write_loop mt nt tmin (k + length texts) (Inr tx # post) q"
       "f_out q = f_out p @ lines_of mt tmin texts"
       "total_num_tokens q = total_num_tokens p + counted mt tmin texts"
    by auto
  from a have na: "\<not> num_tokens_tweet mt tx < tmin" by (simp add: accepted_def)
  from a q(3) have ex: "exceeds (total_num_tokens q + (num_tokens_tweet mt tx + 1)) nt" by simp
  let ?q2 = "q\<lparr>i := k + length texts, f_out := f_out q @ mt (strip tx) @ [newline],
        total_num_tokens := total_num_tokens q + (num_tokens_tweet mt tx + 1)\<rparr>"
  from q loop_break[OF na ex, of "k + length texts" post]
  have "write_loop mt nt tmin k (map Inr texts @ Inr tx # post) p = (?q2, post, Break)
            \<and> f_out ?q2 = f_out p
                @ concat (map (\<lambda>t. mt (strip t) @ [newline]) (filter (accepted mt tmin) texts))
                @ mt (strip tx) @ [newline]
            \<and> total_num_tokens ?q2 = total_num_tokens p
                + sum_list (map (\<lambda>t. int (length (tokens mt t)) + 2) (filter (accepted mt tmin) texts))
                + (int (length (tokens mt tx)) + 2)"
    by (simp add: counted_tokens[symmetric] lines_of_written[symmetric] num_tokens_tweet_def)
  then show "\<exists>p'. write_loop mt nt tmin k (map Inr texts @ Inr tx # post) p = (p', post, Break)
            \<and> f_out p' = f_out p
                @ concat (map (\<lambda>t. mt (strip t) @ [newline]) (filter (accepted mt tmin) texts))
                @ mt (strip tx) @ [newline]
            \<and> total_num_tokens p' = total_num_tokens p
                + sum_list (map (\<lambda>t. int (length (tokens mt t)) + 2) (filter (accepted mt tmin) texts))
                + (int (length (tokens mt tx)) + 2)"
    by (rule exI[of _ ?q2])
next
  show "num_tokens_tweet mt tx + 1 = int (length (tokens mt tx)) + 2"
    by (simp add: num_tokens_tweet_def)
qed

theorem accepted_adds_count_plus_one_witness:
  "(\<exists>p'. write_loop id (Some 5) 3 0 [Inr ''a b'', Inr ''c''] (start []) = (p', [], Exhausted)
       \<and> f_out p' = ''a b'' @ [newline] \<and> total_num_tokens p' = 4) \<and>
   (\<exists>p'. write_loop id (Some 5) 3 0 [Inr ''a b'', Inr ''c'', Inr ''d e f'', Inr ''g''] (start []) =
         (p', [Inr ''g''], Break)
       \<and> f_out p' = ''a b'' @ [newline] @ ''d e f'' @ [newline] \<and> total_num_tokens p' = 9)"
proof -
  have v: "num_tokens_tweet id ''a b'' = 3" "num_tokens_tweet id ''c'' = 2"
    "num_tokens_tweet id ''d e f'' = 4"
    "tokens id ''a b'' = [''a'', ''b'']" "tokens id ''d e f'' = [''d'', ''e'', ''f'']"
    "strip ''a b'' = ''a b''" "strip ''d e f'' = ''d e f''"
    by (simp_all add: num_tokens_tweet_def tokens_def strip_def isspace_def between_def code_def)
  have h: "\<forall>n<length [''a b'', ''c'']. accepted id 3 ([''a b'', ''c''] ! n) \<longrightarrow>
      \<not> exceeds (total_num_tokens (start []) + counted id 3 (take (Suc n) [''a b'', ''c''])) (Some 5)"
    by (simp add: less_Suc_eq accepted_def counted_def exceeds_def start_def v)
  have c: "accepted id 3 ''d e f'' \<and>
      exceeds (total_num_tokens (start []) + counted id 3 [''a b'', ''c''] + (num_tokens_tweet id ''d e f'' + 1)) (Some 5)"
    by (simp add: accepted_def counted_def exceeds_def start_def v)
  from accepted_adds_count_plus_one[OF h, where tx = "''d e f''" and k = 0 and post = "[Inr ''g'']"] c show ?thesis
    by (simp add: accepted_def start_def v)
qed

text \<open>What of a pass is written and counted does not depend on the index or on the reports.\<close>

lemma outcome_indep:
  "f_out p = f_out q \<Longrightarrow> total_num_tokens p = total_num_tokens q \<Longrightarrow>
   outcome (write_loop mt nt tmin k items p) = outcome (write_loop mt nt tmin k' items q)"
proof (induction items arbitrary: k k' p q)
  case Nil
  then show ?case by (simp add: outcome_def)
next
  case (Cons x xs)
  show ?case
  proof (cases x)
    case (Inl e)
    with Cons.prems show ?thesis by (simp add: outcome_def)
  next
    case (Inr tx)
    show ?thesis
    proof (cases "num_tokens_tweet mt tx < tmin")
      case True
      with Inr Cons.prems Cons.IH[of "p\<lparr>i := k\<rparr>" "q\<lparr>i := k'\<rparr>" "Suc k" "Suc k'"]
      show ?thesis by (simp add: loop_reject)
    next
      case False
      show ?thesis
      proof (cases "exceeds (total_num_tokens p + (num_tokens_tweet mt tx + 1)) nt")
        case True
        with Cons.prems have "exceeds (total_num_tokens q + (num_tokens_tweet mt tx + 1)) nt"
          by simp
        from loop_break[OF False True] loop_break[OF False this] Inr Cons.prems
        show ?thesis by (simp add: outcome_def)
      next
        case nb: False
        with Cons.prems have nb': "\<not> exceeds (total_num_tokens q + (num_tokens_tweet mt tx + 1)) nt"
          by simp
        show ?thesis
          unfolding Inr loop_continue[OF False nb] loop_continue[OF False nb']
          by (rule Cons.IH) (simp_all add: Cons.prems)
      qed
    qed
  qed
qed

lemma reject_anywhere:
  "num_tokens_tweet mt tx < tmin \<Longrightarrow>
   outcome (write_loop mt nt tmin k (pre @ Inr tx # post) p) =
   outcome (write_loop mt nt tmin k (pre @ post) p)"
proof (induction pre arbitrary: k p)
  case Nil
  then show ?case
    by (simp add: loop_reject del: write_loop.simps) (rule outcome_indep, simp_all)
next
  case (Cons x xs)
  show ?case
  proof (cases x)
    case (Inl e)
    then show ?thesis by simp
  next
    case (Inr t)
    show ?thesis
    proof (cases "num_tokens_tweet mt t < tmin")
      case True
      with Inr Cons.IH[OF Cons.prems] show ?thesis
        by (simp add: loop_reject del: write_loop.simps)
    next
      case False
      show ?thesis
      proof (cases "exceeds (total_num_tokens p + (num_tokens_tweet mt t + 1)) nt")
        case True
        from loop_break[OF False True] Inr show ?thesis
          by (simp add: outcome_def del: write_loop.simps)
      next
        case nb: False
        from loop_continue[OF False nb] Inr Cons.IH[OF Cons.prems] show ?thesis
          by (simp del: write_loop.simps)
      qed
    qed
  qed
qed

text \<open>
  C4. The accounted value of a record is the number of its non-empty tokens plus 1.
  When it is below the threshold, the loop goes on to the next record in the state it
  had, with only the index moved: nothing is written and the running total is as it
  was. Taking a rejected record out of the input, wherever it stands, changes neither
  what the pass writes, nor its running total, nor the way it ends.
\<close>

theorem rejected_not_written:
  "num_tokens_tweet mt tx = int (length (filter (\<lambda>token. token \<noteq> []) (split_sp (mt (strip tx))))) + 1 \<and>
   (num_tokens_tweet mt tx < tmin \<longrightarrow>
      write_loop mt nt tmin k (Inr tx # rest) p = write_loop mt nt tmin (Suc k) rest (p\<lparr>i := k\<rparr>) \<and>
      outcome (write_loop mt nt tmin k (pre @ Inr tx # post) p) =
        outcome (write_loop mt nt tmin k (pre @ post) p))"
  using reject_anywhere[of mt tx tmin nt k pre post p]
  by (simp add: num_tokens_tweet_def tokens_def)

theorem rejected_not_written_witness:
  "num_tokens_tweet id ''c'' < 3 \<and>
   write_loop id (Some 5) 3 0 [Inr ''c'', Inr ''d e f''] (start []) =
     write_loop id (Some 5) 3 (Suc 0) [Inr ''d e f''] ((start [])\<lparr>i := 0\<rparr>) \<and>
   outcome (write_loop id (Some 5) 3 0 ([Inr ''a b c''] @ Inr ''c'' # [Inr ''d e f'']) (start [])) =
     outcome (write_loop id (Some 5) 3 0 ([Inr ''a b c''] @ [Inr ''d e f'']) (start []))"
proof -
  have h: "num_tokens_tweet id ''c'' < 3"
    by (simp add: num_tokens_tweet_def tokens_def strip_def isspace_def between_def code_def)
  from rejected_not_written[of id "''c''" 3 "Some 5" 0 "[Inr ''d e f'']" "start []"
      "[Inr ''a b c'']" "[Inr ''d e f'']"] h
  show ?thesis by blast
qed

text \<open>
  C3. The scenario of the specification, on texts that the identity tokenizer gives the
  accounted values 12, 5, 20, 8 and 15: the loop ends at the \<open>break\<close> behind the second
  written record, with a running total of 34, and leaves the last two records in the
  generator. The record of value 15 is not written and the total is not 47.
\<close>

theorem scenario_counterexample:
  "map (num_tokens_tweet id)
     [''a a a a a a a a a a a'', ''b b b b'', ''c c c c c c c c c c c c c c c c c c c'',
      ''d d d d d d d'', ''e e e e e e e e e e e e e e''] = [12, 5, 20, 8, 15] \<and>
   write_loop id (Some 30) 10 0
     [Inr ''a a a a a a a a a a a'', Inr ''b b b b'', Inr ''c c c c c c c c c c c c c c c c c c c'',
      Inr ''d d d d d d d'', Inr ''e e e e e e e e e e e e e e''] (start []) =
     (\<lparr>f_out = ''a a a a a a a a a a a'' @ [newline] @ ''c c c c c c c c c c c c c c c c c c c'' @ [newline],
       total_num_tokens = 34, i = 2, printed = []\<rparr>,
      [Inr ''d d d d d d d'', Inr ''e e e e e e e e e e e e e e''], Break)"
  by (simp add: num_tokens_tweet_def tokens_def strip_def isspace_def between_def code_def
      exceeds_def report_def start_def Let_def)

text \<open>
  C3, amended. For any five texts with the accounted values 12, 5, 20, 8 and 15, any
  tokenizer, threshold 10 and budget 30: the pass writes the lines of the first and the
  third text, in this order, the running total behind the second write is 34, and the
  loop ends there at the \<open>break\<close>, with two records written and the last two texts left
  in the generator.
\<close>

theorem scenario_amended:
  "map (num_tokens_tweet mt) [t1, t2, t3, t4, t5] = [12, 5, 20, 8, 15] \<Longrightarrow>
   write_loop mt (Some 30) 10 0 [Inr t1, Inr t2, Inr t3, Inr t4, Inr t5] (start c) =
     (\<lparr>f_out = c @ mt (strip t1) @ [newline] @ mt (strip t3) @ [newline],
       total_num_tokens = 34, i = 2, printed = []\<rparr>,
      [Inr t4, Inr t5], Break)"
  by (simp add: exceeds_def report_def start_def Let_def)

theorem scenario_amended_witness:
  "write_loop id (Some 30) 10 0
     [Inr ''k k k k k k k k k k k'', Inr ''l l l l'', Inr ''m m m m m m m m m m m m m m m m m m m'',
      Inr ''n n n n n n n'', Inr ''o o o o o o o o o o o o o o''] (start ''x'') =
     (\<lparr>f_out = ''x'' @ id (strip ''k k k k k k k k k k k'') @ [newline]
          @ id (strip ''m m m m m m m m m m m m m m m m m m m'') @ [newline],
       total_num_tokens = 34, i = 2, printed = []\<rparr>,
      [Inr ''n n n n n n n'', Inr ''o o o o o o o o o o o o o o''], Break)"
proof -
  have h: "map (num_tokens_tweet id)
     [''k k k k k k k k k k k'', ''l l l l'', ''m m m m m m m m m m m m m m m m m m m'',
      ''n n n n n n n'', ''o o o o o o o o o o o o o o''] = [12, 5, 20, 8, 15]"
    by (simp add: num_tokens_tweet_def tokens_def strip_def isspace_def between_def code_def)
  from scenario_amended[OF h] show ?thesis .
qed

text \<open>
  C9. A pass over one record, which is accepted and written: the summary gives 0 as the
  number of documents, the index of \<open>enumerate\<close> at the last record read, while the file
  holds one record; the token count of the summary is the running total, 12.
\<close>

theorem summary_count_one_record:
  "write_tweettext [''out''] id None W 10
     \<lparr>files = Map.empty, stdout = [], text_iter = [Inr ''a b c d e f g h i j'']\<rparr> =
   Inr \<lparr>files = [[''out''] \<mapsto> ''a b c d e f g h i j'' @ [newline]],
        stdout = [Writing [''out''], Summary [''out''] 0 12],
        text_iter = []\<rparr>"
  by (simp add: write_tweettext_def num_tokens_tweet_def tokens_def strip_def isspace_def
      between_def code_def exceeds_def report_def Let_def)

section \<open>Text extraction\<close>

lemma subscript_field: "subscript v k = Inr x \<longleftrightarrow> field k v = Some x"
  by (cases v) (auto simp: field_def split: option.splits)

lemma py_in_false: "py_in k v = Inr False \<Longrightarrow> subscript v k' = Inr x \<Longrightarrow> field k v = None"
  by (cases v) (auto simp: field_def)

text \<open>
  C5. Whenever \<open>get_text_from_tweet\<close> returns, what it returns is the choice of the
  precedence rule: the reshared record's extended text if present, else the reshared
  record's short text, else the record's own extended text, else its own short text;
  it is one of the four sources as it stands. On every record of the data model it
  returns.
\<close>

theorem text_by_precedence:
  "(get_text_from_tweet tweet = Inr t \<longrightarrow> precedence_rule tweet = Some t \<and> Some t \<in> set (sources tweet)) \<and>
   (wf_tweet tweet \<longrightarrow> (\<exists>t. get_text_from_tweet tweet = Inr t))"
proof (rule conjI; rule impI)
  assume g: "get_text_from_tweet tweet = Inr t"
  then obtain d where d: "tweet = JObj d" by (cases tweet) auto
  show "precedence_rule tweet = Some t \<and> Some t \<in> set (sources tweet)"
  proof (cases "map_of d ''retweeted_status''")
    case None
    show ?thesis
    proof (cases "map_of d ''extended_tweet''")
      case n2: None
      with g d None show ?thesis
        by (auto simp: precedence_rule_def sources_def field_def extended_text_def short_text_def
            split: option.splits)
    next
      case (Some e)
      with g d None show ?thesis
        by (auto simp: precedence_rule_def sources_def field_def extended_text_def short_text_def
            subscript_field split: option.splits)
    qed
  next
    case (Some r)
    show ?thesis
    proof (cases "py_in ''extended_tweet'' r")
      case (Inl e)
      with g d Some show ?thesis by simp
    next
      case (Inr b)
      show ?thesis
      proof (cases b)
        case True
        with g d Some Inr obtain e where
          e: "subscript r ''extended_tweet'' = Inr e" "subscript e ''full_text'' = Inr t"
          by (auto split: sum.splits)
        then have "field ''extended_tweet'' r = Some e" "field ''full_text'' e = Some t"
          by (simp_all add: subscript_field)
        with d Some show ?thesis
          by (simp add: precedence_rule_def sources_def field_def extended_text_def)
      next
        case False
        with g d Some Inr have s: "subscript r ''text'' = Inr t"
          by simp
        from Inr False have "py_in ''extended_tweet'' r = Inr False" by simp
        from py_in_false[OF this s] have "field ''extended_tweet'' r = None" .
        with s d Some show ?thesis
          by (simp add: precedence_rule_def sources_def field_def[of _ "JObj d"] extended_text_def
              short_text_def subscript_field)
      qed
    qed
  qed
next
  assume wf: "wf_tweet tweet"
  then obtain d where d: "tweet = JObj d"
    by (cases tweet) (auto simp: wf_tweet_def wf_record_def short_text_def field_def)
  have rec: "\<exists>t. (case py_in ''extended_tweet'' r of Inl e \<Rightarrow> Inl e
        | Inr True \<Rightarrow> (case subscript r ''extended_tweet'' of Inl e \<Rightarrow> Inl e
                       | Inr extended_tweet \<Rightarrow> subscript extended_tweet ''full_text'')
        | Inr False \<Rightarrow> subscript r ''text'') = Inr t" if "wf_record r" for r
  proof -
    from that obtain c where c: "r = JObj c"
      by (cases r) (auto simp: wf_record_def short_text_def field_def)
    show ?thesis
    proof (cases "map_of c ''extended_tweet''")
      case None
      with that c show ?thesis
        by (auto simp: wf_record_def short_text_def field_def)
    next
      case (Some e)
      with that c obtain t where "field ''full_text'' e = Some t"
        by (auto simp: wf_record_def field_def)
      then have "subscript e ''full_text'' = Inr t" by (simp add: subscript_field)
      with Some c show ?thesis by simp
    qed
  qed
  show "\<exists>t. get_text_from_tweet tweet = Inr t"
  proof (cases "map_of d ''retweeted_status''")
    case None
    from wf d have "wf_record (JObj d)" by (simp add: wf_tweet_def)
    from rec[OF this] None d show ?thesis by simp
  next
    case (Some r)
    with wf d have "wf_record r" by (simp add: wf_tweet_def field_def)
    from rec[OF this] Some d show ?thesis by simp
  qed
qed

theorem text_by_precedence_witness:
  "wf_tweet (JObj [(''text'', JStr ''short''), (''retweeted_status'',
       JObj [(''text'', JStr ''orig''), (''extended_tweet'', JObj [(''full_text'', JStr ''orig long'')])])]) \<and>
   get_text_from_tweet (JObj [(''text'', JStr ''short''), (''retweeted_status'',
       JObj [(''text'', JStr ''orig''), (''extended_tweet'', JObj [(''full_text'', JStr ''orig long'')])])])
     = Inr (JStr ''orig long'') \<and>
   precedence_rule (JObj [(''text'', JStr ''short''), (''retweeted_status'',
       JObj [(''text'', JStr ''orig''), (''extended_tweet'', JObj [(''full_text'', JStr ''orig long'')])])])
     = Some (JStr ''orig long'')"
  using text_by_precedence[of "JObj [(''text'', JStr ''short''), (''retweeted_status'',
       JObj [(''text'', JStr ''orig''), (''extended_tweet'', JObj [(''full_text'', JStr ''orig long'')])])]"
      "JStr ''orig long''"]
  by (simp add: wf_tweet_def wf_record_def field_def short_text_def)

section \<open>Properties of the normalizer\<close>

text \<open>
  C10. The space is in the character class of \<open>url_regex\<close>, so the match of a link runs
  on over the words behind it as long as they are made of characters of the class: here
  the normalizer removes the link and every word that follows it.
\<close>

theorem url_removal_takes_following_words:
  "url_char CHR '' '' \<and>
   re_sub url_regex (\<lambda>_. '''') ''see http://t.co/ab more_words (v1.2) a-b/c'' = ''see '' \<and>
   clean_line_mod ''see http://t.co/ab more_words (v1.2) a-b/c'' = ''see ''"
  by (simp add: clean_line_mod_def url_regex_def pic_url_regex_def multi_dot_regex_def
      mention_regex_def hashtag_regex_def multi_space_regex_def starts_with_def url_char_def
      is_word_def isalpha_def isspace_def is_ascii_letter_def is_ascii_digit_def between_def code_def)

text \<open>The last step of the normalizer, one character at a time\<close>

lemma multi_space_step:
  "re_sub multi_space_regex (\<lambda>_. '' '') (c # cs) =
     (if isspace c then CHR '' '' # re_sub multi_space_regex (\<lambda>_. '' '') (dropWhile isspace cs)
      else c # re_sub multi_space_regex (\<lambda>_. '' '') cs)"
  by (simp add: multi_space_regex_def dropWhile_eq_drop)

lemma multi_space_head:
  "s = [] \<or> \<not> isspace (hd s) \<Longrightarrow>
   dropWhile isspace (re_sub multi_space_regex (\<lambda>_. '' '') s) = re_sub multi_space_regex (\<lambda>_. '' '') s"
  by (cases s) (auto simp: multi_space_step simp del: re_sub.simps(2))

lemma dropWhile_head: "dropWhile P s = [] \<or> \<not> P (hd (dropWhile P s))"
  by (metis hd_dropWhile)

lemma multi_space_idem:
  "re_sub multi_space_regex (\<lambda>_. '' '') (re_sub multi_space_regex (\<lambda>_. '' '') s) =
   re_sub multi_space_regex (\<lambda>_. '' '') s"
proof (induction s rule: length_induct)
  case (1 s)
  show ?case
  proof (cases s)
    case Nil
    then show ?thesis by simp
  next
    case (Cons c cs)
    show ?thesis
    proof (cases "isspace c")
      case True
      have sp: "isspace CHR '' ''"
        by (simp add: isspace_def between_def code_def)
      have "length (dropWhile isspace cs) < length s"
        using Cons by (simp add: length_dropWhile_le le_imp_less_Suc)
      with 1 have ih: "re_sub multi_space_regex (\<lambda>_. '' '')
          (re_sub multi_space_regex (\<lambda>_. '' '') (dropWhile isspace cs)) =
          re_sub multi_space_regex (\<lambda>_. '' '') (dropWhile isspace cs)"
        by blast
      from True Cons sp show ?thesis
        by (simp add: multi_space_step multi_space_head[OF dropWhile_head] ih del: re_sub.simps(2))
    next
      case False
      from 1 Cons have "re_sub multi_space_regex (\<lambda>_. '' '')
          (re_sub multi_space_regex (\<lambda>_. '' '') cs) = re_sub multi_space_regex (\<lambda>_. '' '') cs"
        by simp
      with False Cons show ?thesis
        by (simp add: multi_space_step del: re_sub.simps(2))
    qed
  qed
qed

lemma clean_line_mod_steps:
  "clean_line_mod s = after_mentions (re_sub mention_regex clean_mention (before_mentions s))"
  by (simp add: clean_line_mod_def before_mentions_def after_mentions_def Let_def)

text \<open>A substitution leaves a string as it is when its pattern matches nowhere in it.\<close>

lemma re_sub_unmatched: "\<not> matches_in m s \<Longrightarrow> re_sub m repl s = s"
  by (induction s) (auto split: option.splits)

lemma not_matches_in_Cons:
  "\<not> matches_in m (c # cs) \<longleftrightarrow> m (c # cs) = None \<and> \<not> matches_in m cs"
  by (cases "m (c # cs)") simp_all

lemma matches_in_drop: "\<not> matches_in m s \<Longrightarrow> \<not> matches_in m (drop n s)"
proof (induction s arbitrary: n)
  case Nil
  then show ?case by simp
next
  case (Cons c cs)
  then show ?case by (cases n) (auto simp: not_matches_in_Cons simp del: matches_in.simps)
qed

lemma not_word_chars:
  "\<not> is_word CHR '' ''" "\<not> is_word CHR '':''" "\<not> is_word CHR ''@''" "\<not> is_word CHR ''#''"
  "\<not> is_word CHR ''.''"
  by (simp_all add: is_word_def isalpha_def is_ascii_letter_def is_ascii_digit_def between_def code_def)

lemma space_not_word: "isspace c \<Longrightarrow> \<not> is_word c"
  by (auto simp: isspace_def is_word_def isalpha_def is_ascii_letter_def is_ascii_digit_def
      between_def code_def)

lemma isspace_space: "isspace CHR '' ''"
  by (simp add: isspace_def between_def code_def)

text \<open>No hashtag is left in the output of the normalizer.\<close>

lemma hashtag_regex_Cons:
  "hashtag_regex (c # cs) = None \<longleftrightarrow>
     \<not> (c = CHR ''#'' \<and> list_ex is_ascii_letter (takeWhile is_word cs))"
  by (simp add: hashtag_regex_def starts_with_def Let_def)

lemma hashtag_step_word_run:
  "takeWhile is_word (re_sub hashtag_regex (\<lambda>_. '' '') s) = takeWhile is_word s"
proof (induction s)
  case Nil
  show ?case by simp
next
  case (Cons c cs)
  show ?case
  proof (cases "is_word c")
    case True
    with not_word_chars(4) have "c \<noteq> CHR ''#''" by auto
    then have "hashtag_regex (c # cs) = None" by (simp add: hashtag_regex_Cons)
    with True Cons show ?thesis by simp
  next
    case False
    with not_word_chars(1) show ?thesis
      by (cases "hashtag_regex (c # cs)") auto
  qed
qed

lemma hashtag_step_leaves_none:
  "\<not> matches_in hashtag_regex (re_sub hashtag_regex (\<lambda>_. '' '') s)"
proof (induction s rule: length_induct)
  case (1 s)
  show ?case
  proof (cases s)
    case Nil
    then show ?thesis by simp
  next
    case (Cons c cs)
    show ?thesis
    proof (cases "hashtag_regex (c # cs)")
      case None
      then have "hashtag_regex (c # re_sub hashtag_regex (\<lambda>_. '' '') cs) = None"
        by (simp add: hashtag_regex_Cons hashtag_step_word_run)
      moreover from 1 Cons have "\<not> matches_in hashtag_regex (re_sub hashtag_regex (\<lambda>_. '' '') cs)"
        by simp
      ultimately show ?thesis using None Cons by simp
    next
      case (Some a)
      obtain matched g where a: "a = (matched, g)" by (cases a)
      have "length (drop (length matched - 1) cs) < length s"
        using Cons by simp
      with 1 have "\<not> matches_in hashtag_regex
          (re_sub hashtag_regex (\<lambda>_. '' '') (drop (length matched - 1) cs))"
        by blast
      moreover have "hashtag_regex (CHR '' '' # u) = None" for u
        by (simp add: hashtag_regex_Cons)
      ultimately show ?thesis using Some a Cons by simp
    qed
  qed
qed

lemma multi_space_word_run:
  "takeWhile is_word (re_sub multi_space_regex (\<lambda>_. '' '') s) = takeWhile is_word s"
proof (induction s)
  case Nil
  show ?case by simp
next
  case (Cons c cs)
  show ?case
  proof (cases "isspace c")
    case True
    with space_not_word[OF True] not_word_chars(1) show ?thesis
      by (simp add: multi_space_step del: re_sub.simps(2))
  next
    case False
    with Cons show ?thesis
      by (simp add: multi_space_step del: re_sub.simps(2))
  qed
qed

lemma multi_space_keeps_no_hashtag:
  "\<not> matches_in hashtag_regex s \<Longrightarrow>
   \<not> matches_in hashtag_regex (re_sub multi_space_regex (\<lambda>_. '' '') s)"
proof (induction s rule: length_induct)
  case (1 s)
  show ?case
  proof (cases s)
    case Nil
    then show ?thesis by simp
  next
    case (Cons c cs)
    from "1.prems" Cons have h: "hashtag_regex (c # cs) = None" and t: "\<not> matches_in hashtag_regex cs"
      by (simp_all add: not_matches_in_Cons del: matches_in.simps)
    show ?thesis
    proof (cases "isspace c")
      case True
      have "length (dropWhile isspace cs) < length s"
        using Cons by (simp add: length_dropWhile_le le_imp_less_Suc)
      moreover from t have "\<not> matches_in hashtag_regex (dropWhile isspace cs)"
        unfolding dropWhile_eq_drop by (rule matches_in_drop)
      ultimately have "\<not> matches_in hashtag_regex
          (re_sub multi_space_regex (\<lambda>_. '' '') (dropWhile isspace cs))"
        using 1 by blast
      moreover have "hashtag_regex (CHR '' '' # u) = None" for u
        by (simp add: hashtag_regex_Cons)
      ultimately show ?thesis using True Cons
        by (simp add: multi_space_step del: re_sub.simps(2))
    next
      case False
      from h have "hashtag_regex (c # re_sub multi_space_regex (\<lambda>_. '' '') cs) = None"
        by (simp add: hashtag_regex_Cons multi_space_word_run)
      moreover from 1 t Cons have "\<not> matches_in hashtag_regex (re_sub multi_space_regex (\<lambda>_. '' '') cs)"
        by simp
      ultimately show ?thesis using False Cons
        by (simp add: multi_space_step del: re_sub.simps(2))
    qed
  qed
qed

lemma no_hashtag_in_output: "\<not> matches_in hashtag_regex (clean_line_mod s)"
  unfolding clean_line_mod_steps after_mentions_def Let_def
  by (rule multi_space_keeps_no_hashtag) (rule hashtag_step_leaves_none)

text \<open>
  No image link is left in the output of the normalizer: behind the step for the runs
  of periods every period has a space behind it, and the later steps keep that.
\<close>

lemma dot_spaced_append: "CHR ''.'' \<notin> set a \<Longrightarrow> dot_spaced b \<Longrightarrow> dot_spaced (a @ b)"
  by (induction a) auto

lemma dot_spaced_drop: "dot_spaced s \<Longrightarrow> dot_spaced (drop n s)"
proof (induction s arbitrary: n)
  case Nil
  then show ?case by simp
next
  case (Cons c cs)
  then show ?case by (cases n) auto
qed

lemma multi_dot_at_period: "multi_dot_regex (CHR ''.'' # cs) \<noteq> None"
  by (simp add: multi_dot_regex_def starts_with_def)

lemma dot_step_spaced: "dot_spaced (re_sub multi_dot_regex (\<lambda>_. '' . '') s)"
proof (induction s rule: length_induct)
  case (1 s)
  show ?case
  proof (cases s)
    case Nil
    then show ?thesis by simp
  next
    case (Cons c cs)
    show ?thesis
    proof (cases "multi_dot_regex (c # cs)")
      case None
      with multi_dot_at_period[of cs] have "c \<noteq> CHR ''.''" by auto
      moreover from 1 Cons have "dot_spaced (re_sub multi_dot_regex (\<lambda>_. '' . '') cs)"
        by simp
      ultimately show ?thesis using None Cons by simp
    next
      case (Some a)
      obtain matched g where a: "a = (matched, g)" by (cases a)
      have "length (drop (length matched - 1) cs) < length s"
        using Cons by simp
      with 1 have "dot_spaced (re_sub multi_dot_regex (\<lambda>_. '' . '') (drop (length matched - 1) cs))"
        by blast
      then show ?thesis using Some a Cons by simp
    qed
  qed
qed

lemma re_sub_keeps_dot_spaced:
  assumes m1: "\<And>u. m (CHR ''.'' # u) = None" and m2: "\<And>u. m (CHR '' '' # u) = None"
    and r: "\<And>g. CHR ''.'' \<notin> set (repl g)"
  shows "dot_spaced s \<Longrightarrow> dot_spaced (re_sub m repl s)"
proof (induction s rule: length_induct)
  case (1 s)
  show ?case
  proof (cases s)
    case Nil
    then show ?thesis by simp
  next
    case (Cons c cs)
    show ?thesis
    proof (cases "c = CHR ''.''")
      case True
      with "1.prems" Cons obtain cs' where cs: "cs = CHR '' '' # cs'" and d: "dot_spaced cs'"
        by (cases cs) auto
      from 1 Cons cs d have "dot_spaced (re_sub m repl cs')"
        by simp
      with True Cons cs m1 m2 show ?thesis by simp
    next
      case False
      from "1.prems" Cons have d: "dot_spaced cs" by simp
      show ?thesis
      proof (cases "m (c # cs)")
        case None
        from 1 Cons d have "dot_spaced (re_sub m repl cs)" by simp
        with False None Cons show ?thesis by simp
      next
        case (Some a)
        obtain matched g where a: "a = (matched, g)" by (cases a)
        have "length (drop (length matched - 1) cs) < length s"
          using Cons by simp
        with 1 dot_spaced_drop[OF d] have "dot_spaced (re_sub m repl (drop (length matched - 1) cs))"
          by blast
        with r have "dot_spaced (repl g @ re_sub m repl (drop (length matched - 1) cs))"
          by (rule dot_spaced_append)
        with Some a Cons show ?thesis by simp
      qed
    qed
  qed
qed

lemma multi_space_keeps_dot_spaced:
  "dot_spaced s \<Longrightarrow> dot_spaced (re_sub multi_space_regex (\<lambda>_. '' '') s)"
proof (induction s rule: length_induct)
  case (1 s)
  show ?case
  proof (cases s)
    case Nil
    then show ?thesis by simp
  next
    case (Cons c cs)
    from "1.prems" Cons have d: "dot_spaced cs" by simp
    show ?thesis
    proof (cases "isspace c")
      case True
      have "length (dropWhile isspace cs) < length s"
        using Cons by (simp add: length_dropWhile_le le_imp_less_Suc)
      moreover from d have "dot_spaced (dropWhile isspace cs)"
        unfolding dropWhile_eq_drop by (rule dot_spaced_drop)
      ultimately have "dot_spaced (re_sub multi_space_regex (\<lambda>_. '' '') (dropWhile isspace cs))"
        using 1 by blast
      with True Cons show ?thesis
        by (simp add: multi_space_step del: re_sub.simps(2))
    next
      case False
      from 1 Cons d have r: "dot_spaced (re_sub multi_space_regex (\<lambda>_. '' '') cs)"
        by simp
      show ?thesis
      proof (cases "c = CHR ''.''")
        case True
        with "1.prems" Cons obtain cs' where cs: "cs = CHR '' '' # cs'"
          by (cases cs) auto
        with True False Cons r isspace_space show ?thesis
          by (simp add: multi_space_step del: re_sub.simps(2))
      next
        case nd: False
        with False Cons r show ?thesis
          by (simp add: multi_space_step del: re_sub.simps(2))
      qed
    qed
  qed
qed

lemma output_dot_spaced: "dot_spaced (clean_line_mod s)"
proof -
  have a: "dot_spaced (before_mentions s)"
    unfolding before_mentions_def Let_def by (rule dot_step_spaced)
  have b: "dot_spaced (re_sub mention_regex clean_mention (before_mentions s))"
    using a
  proof (rule re_sub_keeps_dot_spaced[rotated 3])
    show "mention_regex (CHR ''.'' # u) = None" for u
      by (simp add: mention_regex_def starts_with_def)
    show "mention_regex (CHR '' '' # u) = None" for u
      by (simp add: mention_regex_def starts_with_def)
    show "CHR ''.'' \<notin> set (clean_mention g)" for g
      by (auto simp: clean_mention_def isalpha_def is_ascii_letter_def between_def code_def)
  qed
  have c: "dot_spaced (re_sub hashtag_regex (\<lambda>_. '' '')
      (re_sub mention_regex clean_mention (before_mentions s)))"
    using b
  proof (rule re_sub_keeps_dot_spaced[rotated 3])
    show "hashtag_regex (CHR ''.'' # u) = None" for u
      by (simp add: hashtag_regex_Cons)
    show "hashtag_regex (CHR '' '' # u) = None" for u
      by (simp add: hashtag_regex_Cons)
    show "CHR ''.'' \<notin> set '' ''" by simp
  qed
  show ?thesis
    unfolding clean_line_mod_steps after_mentions_def Let_def
    using c by (rule multi_space_keeps_dot_spaced)
qed

lemma starts_with_split:
  assumes "starts_with p s"
  obtains u where "s = p @ u"
  using assms unfolding starts_with_def by (metis append_take_drop_id)

lemma dot_spaced_no_pic_url: "dot_spaced s \<Longrightarrow> \<not> matches_in pic_url_regex s"
proof (induction s)
  case Nil
  show ?case by simp
next
  case (Cons c cs)
  have "pic_url_regex (c # cs) = None"
  proof (rule ccontr)
    assume "pic_url_regex (c # cs) \<noteq> None"
    then have "starts_with ''pic.twitter.com/'' (c # cs)"
      by (auto simp: pic_url_regex_def split: if_splits)
    then obtain u where "c # cs = ''pic.twitter.com/'' @ u"
      by (rule starts_with_split)
    with Cons.prems have "dot_spaced (''pic.twitter.com/'' @ u)"
      by simp
    then show False by simp
  qed
  with Cons show ?case by simp
qed

text \<open>
  C7. The normalizer is not idempotent. It strips one repost marker a run; removing an
  image link can leave a link; the mention step can leave a mention, and it can take
  the space before a period, which the next run puts back.
\<close>

theorem idempotence_counterexample:
  "clean_line_mod ''RT RT x'' = ''RT x'' \<and> clean_line_mod ''RT x'' = ''x'' \<and>
   clean_line_mod ''httppic.twitter.com/a://x'' = ''http://x'' \<and> clean_line_mod ''http://x'' = '''' \<and>
   clean_line_mod ''@@ab'' = ''@ab'' \<and> clean_line_mod ''@ab'' = ''ab'' \<and>
   clean_line_mod ''@a.'' = ''a. '' \<and> clean_line_mod ''a. '' = ''a . '' \<and>
   clean_line_mod (clean_line_mod ''RT RT x'') \<noteq> clean_line_mod ''RT RT x'' \<and>
   clean_line_mod (clean_line_mod ''httppic.twitter.com/a://x'') \<noteq> clean_line_mod ''httppic.twitter.com/a://x'' \<and>
   clean_line_mod (clean_line_mod ''@@ab'') \<noteq> clean_line_mod ''@@ab'' \<and>
   clean_line_mod (clean_line_mod ''@a.'') \<noteq> clean_line_mod ''@a.''"
  by (simp add: clean_line_mod_def url_regex_def pic_url_regex_def multi_dot_regex_def
      mention_regex_def hashtag_regex_def multi_space_regex_def starts_with_def url_char_def
      clean_mention_def Let_def
      is_word_def isalpha_def isspace_def is_ascii_letter_def is_ascii_digit_def between_def code_def)

text \<open>
  C7, amended. The normalizer leaves its own output as it is whenever that output does
  not begin with the repost marker, no link and no mention matches in it, and the step
  for the runs of periods leaves it as it is (every run of periods in it is the one
  period between two spaces). Image links and hashtags need no condition: none is left
  in an output.
\<close>

theorem idempotent_on_settled_output:
  assumes "take 3 (clean_line_mod s) \<noteq> ''RT ''"
    and "\<not> matches_in url_regex (clean_line_mod s)"
    and "re_sub multi_dot_regex (\<lambda>_. '' . '') (clean_line_mod s) = clean_line_mod s"
    and "\<not> matches_in mention_regex (clean_line_mod s)"
  shows "clean_line_mod (clean_line_mod s) = clean_line_mod s"
proof -
  define out where "out = clean_line_mod s"
  obtain x where x: "out = re_sub multi_space_regex (\<lambda>_. '' '') x"
    by (simp add: out_def clean_line_mod_def Let_def)
  have u: "re_sub url_regex (\<lambda>_. '''') out = out"
    using assms(2) unfolding out_def by (rule re_sub_unmatched)
  have p: "re_sub pic_url_regex (\<lambda>_. '''') out = out"
    unfolding out_def by (rule re_sub_unmatched) (rule dot_spaced_no_pic_url, rule output_dot_spaced)
  have d: "re_sub multi_dot_regex (\<lambda>_. '' . '') out = out"
    using assms(3) unfolding out_def .
  have m: "re_sub mention_regex clean_mention out = out"
    using assms(4) unfolding out_def by (rule re_sub_unmatched)
  have h: "re_sub hashtag_regex (\<lambda>_. '' '') out = out"
    unfolding out_def by (rule re_sub_unmatched) (rule no_hashtag_in_output)
  from assms(1) have "clean_line_mod out = re_sub multi_space_regex (\<lambda>_. '' '') out"
    by (simp add: clean_line_mod_def[of out] Let_def u p d m h out_def[symmetric])
  also have "\<dots> = out"
    by (simp add: x multi_space_idem del: re_sub.simps(2))
  finally show ?thesis by (simp add: out_def)
qed

theorem idempotent_on_settled_output_witness:
  "clean_line_mod ''RT Hello. World: mail me @ noon, we are #1 today''
     = ''Hello . World: mail me @ noon, we are #1 today'' \<and>
   clean_line_mod (clean_line_mod ''RT Hello. World: mail me @ noon, we are #1 today'') =
   clean_line_mod ''RT Hello. World: mail me @ noon, we are #1 today''"
proof -
  have e: "clean_line_mod ''RT Hello. World: mail me @ noon, we are #1 today''
      = ''Hello . World: mail me @ noon, we are #1 today''"
    by (simp add: clean_line_mod_def url_regex_def pic_url_regex_def multi_dot_regex_def
      mention_regex_def hashtag_regex_def multi_space_regex_def starts_with_def url_char_def
      clean_mention_def Let_def
      is_word_def isalpha_def isspace_def is_ascii_letter_def is_ascii_digit_def between_def code_def)
  have a: "\<not> matches_in url_regex ''Hello . World: mail me @ noon, we are #1 today''"
    by (simp add: url_regex_def starts_with_def Let_def)
  have b: "re_sub multi_dot_regex (\<lambda>_. '' . '') ''Hello . World: mail me @ noon, we are #1 today''
     = ''Hello . World: mail me @ noon, we are #1 today''"
    by (simp add: multi_dot_regex_def starts_with_def Let_def)
  have c: "\<not> matches_in mention_regex ''Hello . World: mail me @ noon, we are #1 today''"
    by (simp add: mention_regex_def starts_with_def Let_def is_word_def isalpha_def is_ascii_letter_def
        is_ascii_digit_def between_def code_def)
  from idempotent_on_settled_output[of "''RT Hello. World: mail me @ noon, we are #1 today''"] a b c
  show ?thesis
    by (simp add: e)
qed

text \<open>The mention step at a mention marker\<close>

lemma takeWhile_all_then_stop:
  "\<forall>c\<in>set xs. P c \<Longrightarrow> ys = [] \<or> \<not> P (hd ys) \<Longrightarrow> takeWhile P (xs @ ys) = xs"
  by (cases ys) (simp_all add: takeWhile_append2)

lemma dropWhile_all_then_stop:
  "\<forall>c\<in>set xs. P c \<Longrightarrow> ys = [] \<or> \<not> P (hd ys) \<Longrightarrow> dropWhile P (xs @ ys) = ys"
  by (cases ys) (simp_all add: dropWhile_append2)

lemma mention_regex_at_marker:
  assumes h1: "handle \<noteq> []" and h2: "length handle \<le> 15" and h3: "\<forall>c\<in>set handle. is_word c"
    and sp: "\<forall>c\<in>set spaces. c = CHR '' ''" and co: "\<forall>c\<in>set colons. c = CHR '':''"
    and e1: "length handle < 15 \<and> spaces = [] \<and> colons = [] \<longrightarrow> post = [] \<or> \<not> is_word (hd post)"
    and e2: "colons = [] \<longrightarrow> post = [] \<or> hd post \<noteq> CHR '' ''"
    and e3: "post = [] \<or> hd post \<noteq> CHR '':''"
  shows "mention_regex (''@'' @ handle @ spaces @ colons @ post) =
           Some (''@'' @ handle @ spaces @ colons, handle)"
proof -
  let ?rest = "spaces @ colons @ post"
  have nw: "\<not> is_word CHR '' ''" "\<not> is_word CHR '':''"
    by (simp_all add: is_word_def isalpha_def is_ascii_letter_def is_ascii_digit_def between_def code_def)
  have stop: "take (15 - length handle) ?rest = [] \<or> \<not> is_word (hd (take (15 - length handle) ?rest))"
  proof (cases "length handle < 15")
    case False
    with h2 show ?thesis by simp
  next
    case True
    then have "?rest = [] \<or> hd (take (15 - length handle) ?rest) = hd ?rest"
      by (cases ?rest) simp_all
    moreover have "?rest = [] \<or> \<not> is_word (hd ?rest)"
    proof (cases spaces)
      case (Cons a as)
      with sp nw show ?thesis by simp
    next
      case Nil
      show ?thesis
      proof (cases colons)
        case (Cons a as)
        with co nw Nil show ?thesis by simp
      next
        case n2: Nil
        with Nil e1 True show ?thesis by simp
      qed
    qed
    ultimately show ?thesis by auto
  qed
  have "takeWhile is_word (take 15 (handle @ ?rest)) =
        takeWhile is_word (handle @ take (15 - length handle) ?rest)"
    using h2 by simp
  also have "\<dots> = handle"
    using h3 stop by (rule takeWhile_all_then_stop)
  finally have handle: "takeWhile is_word (take 15 (handle @ ?rest)) = handle" .
  have cstop: "colons @ post = [] \<or> \<not> hd (colons @ post) = CHR '' ''"
  proof (cases colons)
    case Nil
    with e2 show ?thesis by simp
  next
    case (Cons a as)
    with co show ?thesis by simp
  qed
  have spaces: "takeWhile (\<lambda>c. c = CHR '' '') ?rest = spaces"
    using sp cstop by (rule takeWhile_all_then_stop)
  have behind: "dropWhile (\<lambda>c. c = CHR '' '') ?rest = colons @ post"
    using sp cstop by (rule dropWhile_all_then_stop)
  have colons: "takeWhile (\<lambda>c. c = CHR '':'') (colons @ post) = colons"
    using co e3 by (rule takeWhile_all_then_stop)
  have sw: "starts_with ''@'' (''@'' @ handle @ ?rest)"
    by (simp add: starts_with_def)
  have d1: "drop 1 (''@'' @ handle @ ?rest) = handle @ ?rest"
    by simp
  have dr: "drop (length handle) (handle @ ?rest) = ?rest"
    by simp
  show ?thesis
    unfolding mention_regex_def Let_def
    using h1 by (simp only: sw d1 dr handle spaces behind colons if_True if_False)
qed

text \<open>
  A match of \<open>mention_regex\<close> ends before the next \<open>@\<close>, so the mention step works on the
  text before an \<open>@\<close> as if the text ended there.
\<close>

lemma takeWhile_take_tail:
  "\<not> P a \<Longrightarrow> takeWhile P (take n (xs @ a # ys)) = takeWhile P (take n xs)"
proof (cases "n \<le> length xs")
  case True
  then show ?thesis by simp
next
  case False
  assume "\<not> P a"
  moreover from False obtain k where "n - length xs = Suc k"
    by (cases "n - length xs") auto
  ultimately show ?thesis using False
    by (simp add: takeWhile_tail)
qed

lemma mention_regex_before_at:
  "mention_regex (CHR ''@'' # cs @ CHR ''@'' # x) = mention_regex (CHR ''@'' # cs)"
proof -
  let ?h = "takeWhile is_word (take 15 cs)"
  let ?sp = "\<lambda>c. c = CHR '' ''"
  let ?co = "\<lambda>c. c = CHR '':''"
  have h: "takeWhile is_word (take 15 (cs @ CHR ''@'' # x)) = ?h"
    using not_word_chars(3) by (rule takeWhile_take_tail)
  have "length ?h \<le> length (take 15 cs)"
    by (rule length_takeWhile_le)
  then have d: "drop (length ?h) (cs @ CHR ''@'' # x) = drop (length ?h) cs @ CHR ''@'' # x"
    by simp
  have s: "takeWhile ?sp (drop (length ?h) cs @ CHR ''@'' # x) = takeWhile ?sp (drop (length ?h) cs)"
    by (rule takeWhile_tail) simp
  have b: "dropWhile ?sp (drop (length ?h) cs @ CHR ''@'' # x) =
           dropWhile ?sp (drop (length ?h) cs) @ CHR ''@'' # x"
    by (rule dropWhile_append3) simp
  have c: "takeWhile ?co (dropWhile ?sp (drop (length ?h) cs) @ CHR ''@'' # x) =
           takeWhile ?co (dropWhile ?sp (drop (length ?h) cs))"
    by (rule takeWhile_tail) simp
  have d1: "drop 1 (CHR ''@'' # cs @ CHR ''@'' # x) = cs @ CHR ''@'' # x"
    "drop 1 (CHR ''@'' # cs) = cs"
    by simp_all
  show ?thesis
    unfolding mention_regex_def Let_def d1 h d s b c
    by (simp add: starts_with_def)
qed

lemma mention_match_length:
  assumes "mention_regex (CHR ''@'' # cs) = Some (matched, g)"
  shows "length matched - 1 \<le> length cs"
proof -
  let ?h = "takeWhile is_word (take 15 cs)"
  let ?d = "drop (length ?h) cs"
  let ?sp = "takeWhile (\<lambda>c. c = CHR '' '') ?d"
  let ?b = "dropWhile (\<lambda>c. c = CHR '' '') ?d"
  let ?co = "takeWhile (\<lambda>c. c = CHR '':'') ?b"
  from assms have m: "matched = ''@'' @ ?h @ ?sp @ ?co"
    by (auto simp: mention_regex_def Let_def split: if_splits)
  have "length ?h \<le> length (take 15 cs)"
    by (rule length_takeWhile_le)
  then have "length ?h \<le> length cs"
    by simp
  then have 1: "length ?h + length ?d = length cs"
    by simp
  have 2: "length ?sp + length ?b = length ?d"
    by (metis length_append takeWhile_dropWhile_id)
  have 3: "length ?co \<le> length ?b"
    by (rule length_takeWhile_le)
  from m have "length matched - 1 = length ?h + length ?sp + length ?co"
    by simp
  with 1 2 3 show ?thesis
    by linarith
qed

lemma mention_step_split:
  "re_sub mention_regex clean_mention (pre @ CHR ''@'' # x) =
   re_sub mention_regex clean_mention pre @ re_sub mention_regex clean_mention (CHR ''@'' # x)"
proof (induction pre rule: length_induct)
  case (1 pre)
  show ?case
  proof (cases pre)
    case Nil
    then show ?thesis by simp
  next
    case (Cons c cs)
    from 1 Cons have ih: "re_sub mention_regex clean_mention (cs @ CHR ''@'' # x) =
        re_sub mention_regex clean_mention cs @ re_sub mention_regex clean_mention (CHR ''@'' # x)"
      by simp
    show ?thesis
    proof (cases "mention_regex (c # cs)")
      case None
      have "mention_regex (c # cs @ CHR ''@'' # x) = None"
      proof (cases "c = CHR ''@''")
        case True
        with None mention_regex_before_at[of cs x] show ?thesis by simp
      next
        case False
        then show ?thesis by (simp add: mention_regex_def starts_with_def)
      qed
      with None ih Cons show ?thesis
        by (simp del: re_sub.simps(2) add: re_sub.simps(2)[of _ _ c])
    next
      case (Some a)
      obtain matched g where a: "a = (matched, g)" by (cases a)
      from Some have c: "c = CHR ''@''"
        by (auto simp: mention_regex_def starts_with_def split: if_splits)
      with Some a mention_regex_before_at[of cs x]
      have e: "mention_regex (c # cs @ CHR ''@'' # x) = Some (matched, g)"
        by simp
      from Some a c mention_match_length[of cs matched g] have n: "length matched - 1 \<le> length cs"
        by simp
      then have "length (drop (length matched - 1) cs) < length pre"
        using Cons by simp
      with 1 have "re_sub mention_regex clean_mention (drop (length matched - 1) cs @ CHR ''@'' # x) =
          re_sub mention_regex clean_mention (drop (length matched - 1) cs)
            @ re_sub mention_regex clean_mention (CHR ''@'' # x)"
        by blast
      with Some a e n Cons show ?thesis
        by (simp del: re_sub.simps(2) add: re_sub.simps(2)[of _ _ c])
    qed
  qed
qed

lemma mention_step_exact:
  assumes h1: "handle \<noteq> []" and h2: "length handle \<le> 15" and h3: "\<forall>c\<in>set handle. is_word c"
    and sp: "\<forall>c\<in>set spaces. c = CHR '' ''" and co: "\<forall>c\<in>set colons. c = CHR '':''"
    and e1: "length handle < 15 \<and> spaces = [] \<and> colons = [] \<longrightarrow> post = [] \<or> \<not> is_word (hd post)"
    and e2: "colons = [] \<longrightarrow> post = [] \<or> hd post \<noteq> CHR '' ''"
    and e3: "post = [] \<or> hd post \<noteq> CHR '':''"
  shows "re_sub mention_regex clean_mention (pre @ ''@'' @ handle @ spaces @ colons @ post) =
           re_sub mention_regex clean_mention pre @ clean_mention handle
             @ re_sub mention_regex clean_mention post"
proof -
  have "re_sub mention_regex clean_mention (CHR ''@'' # handle @ spaces @ colons @ post) =
        clean_mention handle @
        re_sub mention_regex clean_mention
          (drop (length (handle @ spaces @ colons)) (handle @ spaces @ colons @ post))"
    using mention_regex_at_marker[OF h1 h2 h3 sp co e1 e2 e3] by simp
  also have "drop (length (handle @ spaces @ colons)) (handle @ spaces @ colons @ post) = post"
    by simp
  finally have "re_sub mention_regex clean_mention (CHR ''@'' # handle @ spaces @ colons @ post) =
        clean_mention handle @ re_sub mention_regex clean_mention post" .
  with mention_step_split[of pre "handle @ spaces @ colons @ post"] show ?thesis
    by simp
qed

text \<open>
  C6. With a handle that holds a digit, the normalizer keeps only the letters of the
  handle and the digit becomes a space, so the handle text \<open>bob1\<close> is not in the output
  (with the handle kept as a word the output would be \<open>x bob1 y\<close>). What looks like a
  mention inside a link goes with the link, and the letters of a handle right behind a
  \<open>#\<close> go with the hashtag they make.
\<close>

theorem mention_counterexample:
  "clean_line_mod ''x @bob1 : y'' = ''x bob y'' \<and> clean_line_mod ''x @bob1 : y'' \<noteq> ''x bob1 y'' \<and>
   clean_line_mod ''see http://t.co/@bob hi'' = ''see '' \<and>
   clean_line_mod ''#@bob'' = '' ''"
  by (simp add: clean_line_mod_def url_regex_def pic_url_regex_def multi_dot_regex_def
      mention_regex_def hashtag_regex_def multi_space_regex_def starts_with_def url_char_def
      clean_mention_def Let_def
      is_word_def isalpha_def isspace_def is_ascii_letter_def is_ascii_digit_def between_def code_def)

text \<open>
  C6, amended. For every input, take the text that reaches the mention step, that is the
  input behind the steps for the repost marker, the links, the image links and the runs
  of periods. Every mention marker in it, wherever it stands, that is an \<open>@\<close>, the handle
  (the longest run of word characters behind the \<open>@\<close>, cut at 15), all the spaces
  behind the handle and all the colons behind those, is replaced by the handle in which
  every character that is not a letter (a digit, an underscore) is a space: the \<open>@\<close>, the
  spaces and the colons are gone, the letters of the handle stay. The output of the
  normalizer is the text so made, behind the steps for the hashtags and the whitespace.
  The statement leaves open whether spaces stand around the replacement;
  \<open>mention_step_exact\<close> shows that the step puts none.
\<close>

theorem mention_keeps_letters_of_handle:
  assumes "before_mentions s = pre @ ''@'' @ handle @ spaces @ colons @ post"
    and "handle \<noteq> []" and "length handle \<le> 15" and "\<forall>c\<in>set handle. is_word c"
    and "\<forall>c\<in>set spaces. c = CHR '' ''" and "\<forall>c\<in>set colons. c = CHR '':''"
    and "length handle < 15 \<and> spaces = [] \<and> colons = [] \<longrightarrow> post = [] \<or> \<not> is_word (hd post)"
    and "colons = [] \<longrightarrow> post = [] \<or> hd post \<noteq> CHR '' ''"
    and "post = [] \<or> hd post \<noteq> CHR '':''"
  shows "\<exists>l r. set l \<subseteq> {CHR '' ''} \<and> set r \<subseteq> {CHR '' ''} \<and>
           clean_line_mod s =
             after_mentions (re_sub mention_regex clean_mention pre
               @ l @ map (\<lambda>c. if isalpha c then c else CHR '' '') handle @ r
               @ re_sub mention_regex clean_mention post)"
proof -
  have "set ([]::string) \<subseteq> {CHR '' ''} \<and> set ([]::string) \<subseteq> {CHR '' ''} \<and>
           clean_line_mod s =
             after_mentions (re_sub mention_regex clean_mention pre
               @ [] @ map (\<lambda>c. if isalpha c then c else CHR '' '') handle @ []
               @ re_sub mention_regex clean_mention post)"
    using mention_step_exact[OF assms(2-9), of pre]
    by (simp add: clean_line_mod_steps assms(1) clean_mention_def del: re_sub.simps(2))
  then show ?thesis by blast
qed

theorem mention_keeps_letters_of_handle_witness:
  "before_mentions ''RT me @ home @bob1 : hi'' = ''me @ home '' @ ''@'' @ ''bob1'' @ '' '' @ '':'' @ '' hi'' \<and>
   (\<exists>l r. set l \<subseteq> {CHR '' ''} \<and> set r \<subseteq> {CHR '' ''} \<and>
      clean_line_mod ''RT me @ home @bob1 : hi'' =
        after_mentions (re_sub mention_regex clean_mention ''me @ home ''
          @ l @ map (\<lambda>c. if isalpha c then c else CHR '' '') ''bob1'' @ r
          @ re_sub mention_regex clean_mention '' hi''))"
proof -
  have b: "before_mentions ''RT me @ home @bob1 : hi'' =
      ''me @ home '' @ ''@'' @ ''bob1'' @ '' '' @ '':'' @ '' hi''"
    by (simp add: before_mentions_def url_regex_def pic_url_regex_def multi_dot_regex_def
        starts_with_def Let_def)
  have "\<exists>l r. set l \<subseteq> {CHR '' ''} \<and> set r \<subseteq> {CHR '' ''} \<and>
      clean_line_mod ''RT me @ home @bob1 : hi'' =
        after_mentions (re_sub mention_regex clean_mention ''me @ home ''
          @ l @ map (\<lambda>c. if isalpha c then c else CHR '' '') ''bob1'' @ r
          @ re_sub mention_regex clean_mention '' hi'')"
    using b by (rule mention_keeps_letters_of_handle)
      (simp_all add: is_word_def isalpha_def is_ascii_letter_def is_ascii_digit_def between_def code_def)
  with b show ?thesis by (rule conjI)
qed

section \<open>Properties of the driver\<close>

text \<open>A pass on a file with contents \<open>c\<close> writes behind \<open>c\<close> what it writes on a new file.\<close>

lemma loop_shift:
  "f_out q = c @ f_out p \<Longrightarrow> total_num_tokens q = total_num_tokens p \<Longrightarrow>
   write_loop mt nt tmin k items p = (p', rest, ex) \<Longrightarrow>
   \<exists>q'. write_loop mt nt tmin k items q = (q', rest, ex) \<and> f_out q' = c @ f_out p'"
proof (induction items arbitrary: k p q)
  case Nil
  then show ?case by auto
next
  case (Cons x xs)
  show ?case
  proof (cases x)
    case (Inl e)
    with Cons.prems show ?thesis by auto
  next
    case (Inr tx)
    show ?thesis
    proof (cases "num_tokens_tweet mt tx < tmin")
      case True
      with Cons.prems Inr
      have run: "write_loop mt nt tmin (Suc k) xs (p\<lparr>i := k\<rparr>) = (p', rest, ex)"
        by simp
      from Cons.prems have "f_out (q\<lparr>i := k\<rparr>) = c @ f_out (p\<lparr>i := k\<rparr>)"
        "total_num_tokens (q\<lparr>i := k\<rparr>) = total_num_tokens (p\<lparr>i := k\<rparr>)"
        by simp_all
      from Cons.IH[OF this run] show ?thesis
        unfolding Inr loop_reject[OF True] .
    next
      case False
      let ?p2 = "p\<lparr>i := k, f_out := f_out p @ mt (strip tx) @ [newline],
          total_num_tokens := total_num_tokens p + (num_tokens_tweet mt tx + 1)\<rparr>"
      let ?q2 = "q\<lparr>i := k, f_out := f_out q @ mt (strip tx) @ [newline],
          total_num_tokens := total_num_tokens q + (num_tokens_tweet mt tx + 1)\<rparr>"
      show ?thesis
      proof (cases "exceeds (total_num_tokens p + (num_tokens_tweet mt tx + 1)) nt")
        case True
        from loop_break[OF False True, of k xs] Cons.prems Inr
        have r: "p' = ?p2" "rest = xs" "ex = Break"
          by simp_all
        from True Cons.prems have "exceeds (total_num_tokens q + (num_tokens_tweet mt tx + 1)) nt"
          by simp
        from loop_break[OF False this, of k xs] r Inr Cons.prems show ?thesis
          by simp
      next
        case nb: False
        from loop_continue[OF False nb, of k xs] Cons.prems Inr
        have run: "write_loop mt nt tmin (Suc k) xs (report ?p2) = (p', rest, ex)"
          by simp
        from Cons.prems have "f_out (report ?q2) = c @ f_out (report ?p2)"
          "total_num_tokens (report ?q2) = total_num_tokens (report ?p2)"
          by simp_all
        note ih = Cons.IH[OF this run]
        from nb Cons.prems have nbq: "\<not> exceeds (total_num_tokens q + (num_tokens_tweet mt tx + 1)) nt"
          by simp
        from ih show ?thesis
          unfolding Inr loop_continue[OF False nbq] .
      qed
    qed
  qed
qed

lemma loop_on_contents:
  "\<exists>q'. write_loop mt nt tmin 0 items (start c) =
         (q', remaining mt nt tmin items, snd (snd (write_loop mt nt tmin 0 items (start []))))
       \<and> f_out q' = c @ written mt nt tmin items"
proof -
  obtain p' rest ex where r: "write_loop mt nt tmin 0 items (start []) = (p', rest, ex)"
    by (cases "write_loop mt nt tmin 0 items (start [])") auto
  have "f_out (start c) = c @ f_out (start [])"
    "total_num_tokens (start c) = total_num_tokens (start [])"
    by (simp_all add: start_def)
  from loop_shift[OF this r] r show ?thesis
    by (simp add: written_def remaining_def)
qed

text \<open>A generator that raises nowhere: no pass raises, and what is left raises nowhere.\<close>

lemma loop_all_texts:
  "all_texts items \<Longrightarrow> write_loop mt nt tmin k items p = (p', rest, ex) \<Longrightarrow>
   all_texts rest \<and> (ex = Exhausted \<or> ex = Break)"
proof (induction items arbitrary: k p)
  case Nil
  then show ?case by (auto simp: all_texts_def)
next
  case (Cons x xs)
  from Cons.prems(1) obtain tx where x: "x = Inr tx" and xs: "all_texts xs"
    by (cases x) (auto simp: all_texts_def)
  show ?case
  proof (cases "num_tokens_tweet mt tx < tmin")
    case True
    with Cons.prems x
    have "write_loop mt nt tmin (Suc k) xs (p\<lparr>i := k\<rparr>) = (p', rest, ex)"
      by simp
    from Cons.IH[OF xs this] show ?thesis .
  next
    case False
    show ?thesis
    proof (cases "exceeds (total_num_tokens p + (num_tokens_tweet mt tx + 1)) nt")
      case True
      from loop_break[OF False True, of k xs] Cons.prems x xs show ?thesis
        by simp
    next
      case nb: False
      from loop_continue[OF False nb, of k xs] Cons.prems x
      have "write_loop mt nt tmin (Suc k) xs
         (report (p\<lparr>i := k, f_out := f_out p @ mt (strip tx) @ [newline],
            total_num_tokens := total_num_tokens p + (num_tokens_tweet mt tx + 1)\<rparr>)) = (p', rest, ex)"
        by simp
      from Cons.IH[OF xs this] show ?thesis .
    qed
  qed
qed

lemma all_texts_remaining: "all_texts items \<Longrightarrow> all_texts (remaining mt nt tmin items)"
proof -
  assume a: "all_texts items"
  obtain p' rest ex where r: "write_loop mt nt tmin 0 items (start []) = (p', rest, ex)"
    by (cases "write_loop mt nt tmin 0 items (start [])") auto
  from loop_all_texts[OF a r] r show ?thesis
    by (simp add: remaining_def)
qed

text \<open>A pass without a budget leaves nothing in the generator.\<close>

lemma loop_no_budget: "fst (snd (write_loop mt None tmin k items p)) = []"
proof (induction items arbitrary: k p)
  case Nil
  show ?case by simp
next
  case (Cons x xs)
  show ?case
  proof (cases x)
    case (Inl e)
    then show ?thesis by simp
  next
    case (Inr tx)
    with Cons show ?thesis
      by (simp add: exceeds_def Let_def)
  qed
qed

lemma remaining_no_budget: "remaining mt None tmin items = []"
  by (simp add: remaining_def loop_no_budget)

text \<open>What \<open>write_tweettext\<close> returns when the generator raises nowhere\<close>

lemma write_tweettext_texts:
  assumes "all_texts (text_iter w)"
  shows "\<exists>out. write_tweettext file_path mt nt md tmin w =
     Inr \<lparr>files = (files w)(file_path \<mapsto>
             (case md of W \<Rightarrow> [] | A \<Rightarrow> (case files w file_path of None \<Rightarrow> [] | Some c \<Rightarrow> c))
             @ written mt nt tmin (text_iter w)),
          stdout = out,
          text_iter = remaining mt nt tmin (text_iter w)\<rparr>"
proof -
  let ?c = "case md of W \<Rightarrow> [] | A \<Rightarrow> (case files w file_path of None \<Rightarrow> [] | Some c \<Rightarrow> c)"
  obtain p' rest ex where r: "write_loop mt nt tmin 0 (text_iter w) (start []) = (p', rest, ex)"
    by (cases "write_loop mt nt tmin 0 (text_iter w) (start [])") auto
  from loop_all_texts[OF assms r] have ex: "ex = Exhausted \<or> ex = Break"
    by simp
  have opened: "(case md of W \<Rightarrow> []
       | A \<Rightarrow> (case files (w\<lparr>stdout := stdout w @ [Writing file_path]\<rparr>) file_path of
                None \<Rightarrow> [] | Some c \<Rightarrow> c)) = ?c"
    by (cases md) simp_all
  have s: "\<lparr>f_out = ?c, total_num_tokens = 0, i = 0, printed = []\<rparr> = start ?c"
    by (simp add: start_def)
  from loop_on_contents[of mt nt tmin "text_iter w" ?c] r obtain q' where
    q: "write_loop mt nt tmin 0 (text_iter w) (start ?c) = (q', remaining mt nt tmin (text_iter w), ex)"
       "f_out q' = ?c @ written mt nt tmin (text_iter w)"
    by auto
  have "write_tweettext file_path mt nt md tmin w =
      (case ex of
         Raised e \<Rightarrow> Inl e
       | _ \<Rightarrow> Inr \<lparr>files = (files w)(file_path \<mapsto> f_out q'),
                  stdout = stdout w @ [Writing file_path] @ printed q'
                    @ [Summary file_path (i q') (total_num_tokens q')],
                  text_iter = remaining mt nt tmin (text_iter w)\<rparr>)"
    unfolding write_tweettext_def Let_def opened s
    by (simp add: q(1) del: write_loop.simps split: loop_exit.splits)
  also have "\<dots> = Inr \<lparr>files = (files w)(file_path \<mapsto> ?c @ written mt nt tmin (text_iter w)),
       stdout = stdout w @ [Writing file_path] @ printed q' @ [Summary file_path (i q') (total_num_tokens q')],
       text_iter = remaining mt nt tmin (text_iter w)\<rparr>"
    using ex by (auto simp: q(2))
  finally show ?thesis by blast
qed

lemma path_div_eq [simp]: "path_div a x = path_div b y \<longleftrightarrow> a = b \<and> x = y"
  by (simp add: path_div_def)

lemma tokens_file_eq [simp]: "tokens_file lang s = tokens_file lang t \<longleftrightarrow> s = t"
  by (simp add: tokens_file_def)

text \<open>One round of the loop over the splits, for tier directories that differ\<close>

lemma split_loop_round:
  assumes "all_texts (text_iter w)" and "sml_tweets \<noteq> lrg_tweets" and "sml_tweets \<noteq> all_tweets"
  shows "\<exists>out. split_loop lang sml_tweets lrg_tweets all_tweets mt tmin ((split, n) # others) w =
     split_loop lang sml_tweets lrg_tweets all_tweets mt tmin others
       \<lparr>files = (files w)
          (path_div sml_tweets (tokens_file lang split) \<mapsto> written mt (Some n) tmin (text_iter w),
           path_div lrg_tweets (tokens_file lang split) \<mapsto> written mt (Some n) tmin (text_iter w),
           path_div all_tweets (tokens_file lang split) \<mapsto> written mt (Some n) tmin (text_iter w)),
        stdout = out,
        text_iter = remaining mt (Some n) tmin (text_iter w)\<rparr>"
proof -
  from write_tweettext_texts[OF assms(1), of "path_div sml_tweets (tokens_file lang split)" mt "Some n" W tmin]
  obtain out where
    "write_tweettext (path_div sml_tweets (tokens_file lang split)) mt (Some n) W tmin w =
     Inr \<lparr>files = (files w)(path_div sml_tweets (tokens_file lang split) \<mapsto>
             written mt (Some n) tmin (text_iter w)),
          stdout = out,
          text_iter = remaining mt (Some n) tmin (text_iter w)\<rparr>"
    by auto
  with assms(2,3) have "split_loop lang sml_tweets lrg_tweets all_tweets mt tmin ((split, n) # others) w =
     split_loop lang sml_tweets lrg_tweets all_tweets mt tmin others
       \<lparr>files = (files w)
          (path_div sml_tweets (tokens_file lang split) \<mapsto> written mt (Some n) tmin (text_iter w),
           path_div lrg_tweets (tokens_file lang split) \<mapsto> written mt (Some n) tmin (text_iter w),
           path_div all_tweets (tokens_file lang split) \<mapsto> written mt (Some n) tmin (text_iter w)),
        stdout = out @ [Copying (path_div sml_tweets (tokens_file lang split))
           (path_div lrg_tweets (tokens_file lang split)) (path_div all_tweets (tokens_file lang split))],
        text_iter = remaining mt (Some n) tmin (text_iter w)\<rparr>"
    by (simp add: copyfile_def Let_def)
  then show ?thesis by blast
qed

text \<open>
  C8. When the generator raises nowhere, \<open>main\<close> returns, and the files it leaves are
  those of five passes over the one generator, each taking up where the pass before
  stopped: the small train, valid and test files hold what the passes with the budgets
  2,000,000, 200,000 and 200,000 write; the large and all valid and test files are
  copies of the small ones; the large train file holds the small train file and behind
  it what the pass with budget 98,000,000 writes; the all train file holds the large
  train file and behind it what the pass without budget writes; that pass leaves the
  generator empty.
\<close>

theorem corpus_assembly:
  assumes "all_texts (text_iter w)"
  shows "\<exists>w'. main lang output mt tokens_min w = Inr w' \<and>
     (let sml_tweets = path_div output (lang @ ''-2'');
          lrg_tweets = path_div output (lang @ ''-100'');
          all_tweets = path_div output (lang @ ''-all'');
          it1 = remaining mt (Some 2000000) tokens_min (text_iter w);
          it2 = remaining mt (Some 200000) tokens_min it1;
          it3 = remaining mt (Some 200000) tokens_min it2;
          it4 = remaining mt (Some 98000000) tokens_min it3;
          train = written mt (Some 2000000) tokens_min (text_iter w);
          valid = written mt (Some 200000) tokens_min it1;
          test = written mt (Some 200000) tokens_min it2;
          large = written mt (Some 98000000) tokens_min it3;
          rest = written mt None tokens_min it4
      in files w' (path_div sml_tweets (tokens_file lang ''train'')) = Some train \<and>
         files w' (path_div sml_tweets (tokens_file lang ''valid'')) = Some valid \<and>
         files w' (path_div sml_tweets (tokens_file lang ''test'')) = Some test \<and>
         files w' (path_div lrg_tweets (tokens_file lang ''train'')) = Some (train @ large) \<and>
         files w' (path_div lrg_tweets (tokens_file lang ''valid'')) = Some valid \<and>
         files w' (path_div lrg_tweets (tokens_file lang ''test'')) = Some test \<and>
         files w' (path_div all_tweets (tokens_file lang ''train'')) = Some (train @ large @ rest) \<and>
         files w' (path_div all_tweets (tokens_file lang ''valid'')) = Some valid \<and>
         files w' (path_div all_tweets (tokens_file lang ''test'')) = Some test \<and>
         text_iter w' = [])"
proof -
  define sml_tweets where "sml_tweets = path_div output (lang @ ''-2'')"
  define lrg_tweets where "lrg_tweets = path_div output (lang @ ''-100'')"
  define all_tweets where "all_tweets = path_div output (lang @ ''-all'')"
  define it1 where "it1 = remaining mt (Some 2000000) tokens_min (text_iter w)"
  define it2 where "it2 = remaining mt (Some 200000) tokens_min it1"
  define it3 where "it3 = remaining mt (Some 200000) tokens_min it2"
  define it4 where "it4 = remaining mt (Some 98000000) tokens_min it3"
  define train where "train = written mt (Some 2000000) tokens_min (text_iter w)"
  define valid where "valid = written mt (Some 200000) tokens_min it1"
  define test where "test = written mt (Some 200000) tokens_min it2"
  define large where "large = written mt (Some 98000000) tokens_min it3"
  define rest where "rest = written mt None tokens_min it4"
  have dirs: "sml_tweets \<noteq> lrg_tweets" "sml_tweets \<noteq> all_tweets" "lrg_tweets \<noteq> all_tweets"
    by (simp_all add: sml_tweets_def lrg_tweets_def all_tweets_def)
  have a1: "all_texts it1" unfolding it1_def using assms by (rule all_texts_remaining)
  have a2: "all_texts it2" unfolding it2_def using a1 by (rule all_texts_remaining)
  have a3: "all_texts it3" unfolding it3_def using a2 by (rule all_texts_remaining)
  have a4: "all_texts it4" unfolding it4_def using a3 by (rule all_texts_remaining)
  let ?P = "\<lambda>d s. path_div d (tokens_file lang s)"
  let ?f1 = "(files w)(?P sml_tweets ''train'' \<mapsto> train, ?P lrg_tweets ''train'' \<mapsto> train,
      ?P all_tweets ''train'' \<mapsto> train)"
  let ?f2 = "?f1(?P sml_tweets ''valid'' \<mapsto> valid, ?P lrg_tweets ''valid'' \<mapsto> valid,
      ?P all_tweets ''valid'' \<mapsto> valid)"
  let ?f3 = "?f2(?P sml_tweets ''test'' \<mapsto> test, ?P lrg_tweets ''test'' \<mapsto> test,
      ?P all_tweets ''test'' \<mapsto> test)"
  from split_loop_round[OF assms dirs(1,2), of lang mt tokens_min "''train''" 2000000]
  obtain o1 where r1: "split_loop lang sml_tweets lrg_tweets all_tweets mt tokens_min
      [(''train'', 2000000), (''valid'', 200000), (''test'', 200000)] w =
    split_loop lang sml_tweets lrg_tweets all_tweets mt tokens_min
      [(''valid'', 200000), (''test'', 200000)] \<lparr>files = ?f1, stdout = o1, text_iter = it1\<rparr>"
    unfolding train_def it1_def by blast
  have "all_texts (text_iter \<lparr>files = ?f1, stdout = o1, text_iter = it1\<rparr>)"
    using a1 by simp
  from split_loop_round[OF this dirs(1,2), of lang mt tokens_min "''valid''" 200000]
  obtain o2 where r2: "split_loop lang sml_tweets lrg_tweets all_tweets mt tokens_min
      [(''valid'', 200000), (''test'', 200000)] \<lparr>files = ?f1, stdout = o1, text_iter = it1\<rparr> =
    split_loop lang sml_tweets lrg_tweets all_tweets mt tokens_min
      [(''test'', 200000)] \<lparr>files = ?f2, stdout = o2, text_iter = it2\<rparr>"
    unfolding valid_def it2_def by (auto simp del: split_loop.simps)
  have "all_texts (text_iter \<lparr>files = ?f2, stdout = o2, text_iter = it2\<rparr>)"
    using a2 by simp
  from split_loop_round[OF this dirs(1,2), of lang mt tokens_min "''test''" 200000]
  obtain o3 where r3: "split_loop lang sml_tweets lrg_tweets all_tweets mt tokens_min
      [(''test'', 200000)] \<lparr>files = ?f2, stdout = o2, text_iter = it2\<rparr> =
    split_loop lang sml_tweets lrg_tweets all_tweets mt tokens_min
      [] \<lparr>files = ?f3, stdout = o3, text_iter = it3\<rparr>"
    unfolding test_def it3_def by (auto simp del: split_loop.simps)
  have splits: "split_loop lang sml_tweets lrg_tweets all_tweets mt tokens_min
      (zip [''train'', ''valid'', ''test''] [2000000, 200000, 200000]) w =
      Inr \<lparr>files = ?f3, stdout = o3, text_iter = it3\<rparr>"
    by (simp add: r1 r2 r3 del: split_loop.simps(2))
  have "all_texts (text_iter \<lparr>files = ?f3, stdout = o3, text_iter = it3\<rparr>)"
    using a3 by simp
  from write_tweettext_texts[OF this, of "?P lrg_tweets ''train''" mt "Some 98000000" A tokens_min]
  obtain o4 where r4: "write_tweettext (?P lrg_tweets ''train'') mt (Some 98000000) A tokens_min
      \<lparr>files = ?f3, stdout = o3, text_iter = it3\<rparr> =
      Inr \<lparr>files = ?f3(?P lrg_tweets ''train'' \<mapsto> train @ large), stdout = o4, text_iter = it4\<rparr>"
    using dirs by (auto simp: large_def it4_def)
  let ?f4 = "?f3(?P lrg_tweets ''train'' \<mapsto> train @ large)"
  let ?f5 = "?f4(?P all_tweets ''train'' \<mapsto> train @ large)"
  have r5: "copyfile (?P lrg_tweets ''train'') (?P all_tweets ''train'')
      \<lparr>files = ?f4, stdout = o4, text_iter = it4\<rparr> = Inr \<lparr>files = ?f5, stdout = o4, text_iter = it4\<rparr>"
    using dirs by (simp add: copyfile_def)
  have "all_texts (text_iter \<lparr>files = ?f5, stdout = o4, text_iter = it4\<rparr>)"
    using a4 by simp
  from write_tweettext_texts[OF this, of "?P all_tweets ''train''" mt None A tokens_min]
  obtain o6 where r6: "write_tweettext (?P all_tweets ''train'') mt None A tokens_min
      \<lparr>files = ?f5, stdout = o4, text_iter = it4\<rparr> =
      Inr \<lparr>files = ?f5(?P all_tweets ''train'' \<mapsto> (train @ large) @ rest), stdout = o6, text_iter = []\<rparr>"
    by (auto simp: rest_def remaining_no_budget)
  have m: "main lang output mt tokens_min w =
      Inr \<lparr>files = ?f5(?P all_tweets ''train'' \<mapsto> (train @ large) @ rest), stdout = o6, text_iter = []\<rparr>"
    unfolding main_def Let_def
    unfolding sml_tweets_def[symmetric] lrg_tweets_def[symmetric] all_tweets_def[symmetric]
    by (simp only: splits r4 r5 r6 sum.case)
  show ?thesis
    unfolding Let_def
    unfolding sml_tweets_def[symmetric] lrg_tweets_def[symmetric] all_tweets_def[symmetric]
      it1_def[symmetric] train_def[symmetric]
    unfolding it2_def[symmetric] valid_def[symmetric]
    unfolding it3_def[symmetric] test_def[symmetric]
    unfolding it4_def[symmetric] large_def[symmetric]
    unfolding rest_def[symmetric]
    using dirs by (simp add: m)
qed

theorem corpus_assembly_witness:
  "all_texts (text_iter \<lparr>files = Map.empty, stdout = [], text_iter = [Inr ''a b c'']\<rparr>) \<and>
   (\<exists>w'. main ''en'' [''out''] id 2 \<lparr>files = Map.empty, stdout = [], text_iter = [Inr ''a b c'']\<rparr> = Inr w' \<and>
      files w' [''out'', ''en-2'', ''en.tweets.train.tokens''] = Some (''a b c'' @ [newline]) \<and>
      files w' [''out'', ''en-100'', ''en.tweets.train.tokens''] = Some (''a b c'' @ [newline]) \<and>
      files w' [''out'', ''en-all'', ''en.tweets.train.tokens''] = Some (''a b c'' @ [newline]) \<and>
      files w' [''out'', ''en-all'', ''en.tweets.valid.tokens''] = Some [] \<and>
      text_iter w' = [])"
proof -
  have h: "all_texts (text_iter \<lparr>files = Map.empty, stdout = [], text_iter = [Inr ''a b c'']\<rparr>)"
    by (simp add: all_texts_def)
  have e: "written id (Some 2000000) 2 [Inr ''a b c''] = ''a b c'' @ [newline]"
    "remaining id (Some 2000000) 2 [Inr ''a b c''] = []"
    by (simp_all add: written_def remaining_def num_tokens_tweet_def tokens_def strip_def isspace_def
        between_def code_def exceeds_def report_def start_def Let_def)
  have n: "written id nt 2 [] = []" "remaining id nt 2 [] = []" for nt
    by (simp_all add: written_def remaining_def start_def)
  from corpus_assembly[OF h, of "''en''" "[''out'']" id 2] h show ?thesis
    by (auto simp: Let_def path_div_def tokens_file_def e n)
qed

end
